theory Spec2Isabelle
  imports Main "HOL-Library.Word"
begin

section \<open>The asynchronous byte channel of comm.cpp\<close>

text \<open>
  The class \<open>Comm\<close> of \<open>src/comm.cpp\<close> is embedded as a record of its members and one
  HOL function per member function. A member \<open>x_\<close> of the class is the field \<open>x_m\<close>
  (a name cannot end in an underscore here). What a member function does beyond
  changing members (taking a mutex, notifying a condition variable, calling a hook of
  the transport, starting or joining a thread, calling the receive callback) is appended
  to the field \<open>trace\<close>, in program order, together with every store to a flag and every
  queue operation, so that the order of the statements of a function can be read off the
  events it adds.
\<close>

type_synonym byte = "8 word"

subsection \<open>Chunk buffers\<close>

text \<open>
  Modelled from the spec: the structs \<open>WriteBuffer\<close> and \<open>ReadBuffer\<close> are declared in
  \<open>async_comm/comm.h\<close>, which is not available here. The spec has an OutboundChunk
  own a byte payload and a write cursor \<open>pos\<close>, the unsent remainder being
  \<open>payload[pos:]\<close>, and an InboundChunk own a copy of the received bytes and their count.
  \<open>comm.cpp\<close> builds a chunk from a pointer and a length, adds to \<open>pos\<close>, and reads
  \<open>dpos()\<close>, \<open>nbytes()\<close>, \<open>data\<close> and \<open>len\<close>. Sizes are \<open>size_t\<close>: the cursor arithmetic
  is written with its wrap-around at \<open>2 ^ 64\<close>.
\<close>

record WriteBuffer =
  wdata :: "byte list"
  pos :: nat

record ReadBuffer =
  rdata :: "byte list"
  len :: nat

definition size_t :: "nat \<Rightarrow> nat" where
  "size_t n = n mod 2 ^ 64"

definition WriteBuffer_new :: "byte list \<Rightarrow> nat \<Rightarrow> WriteBuffer" where
  "WriteBuffer_new buf n = \<lparr>wdata = take n buf, pos = 0\<rparr>"

definition nbytes :: "WriteBuffer \<Rightarrow> nat" where
  "nbytes b = size_t (length (wdata b) + 2 ^ 64 - pos b)"

definition unsent :: "WriteBuffer \<Rightarrow> byte list" where
  \<comment> \<open>the bytes of the buffer \<open>(dpos(), nbytes())\<close> that lie in the payload\<close>
  "unsent b = take (nbytes b) (drop (pos b) (wdata b))"

definition ReadBuffer_new :: "byte list \<Rightarrow> nat \<Rightarrow> ReadBuffer" where
  "ReadBuffer_new buf n = \<lparr>rdata = take n buf, len = n\<rparr>"

definition received :: "ReadBuffer \<Rightarrow> byte list" where
  \<comment> \<open>what a callback called with \<open>(buffer.data, buffer.len)\<close> can read\<close>
  "received b = take (len b) (rdata b)"

subsection \<open>Events and errors\<close>

datatype mutex = main_mutex | callback_mutex | write_mutex

datatype condvar = main_condition_variable | callback_condition_variable

datatype thread = main_thread | io_thread | callback_thread

datatype flag = error_flag | shutdown_flag | new_data_flag | callback_shutdown_flag
  | write_in_progress_flag

datatype event =
    Lock mutex
  | Unlock mutex
  | Notify condvar
  | Wait condvar
  | Store flag bool
  | Cerr
  | EmplaceRead ReadBuffer
  | SpliceRead
  | EmplaceWrite WriteBuffer
  | AdvanceWrite nat
  | PopWrite
  | IoServiceStop
  | DoInit
  | DoClose
  | DoAsyncRead
  | DoAsyncWrite "byte list"
  | Spawn thread
  | Join thread
  | ReceiveCallback "byte list"

text \<open>
  What the C++ leaves undefined or answers by an exception is a value of \<open>error\<close>:
  \<open>front\<close> or \<open>pop_front\<close> of an empty list, \<open>join\<close> of a thread that is not joinable
  (\<open>std::system_error\<close>), assigning to a \<open>std::thread\<close> that is still joinable
  (\<open>std::terminate\<close>), and calling an empty \<open>std::function\<close> (\<open>std::bad_function_call\<close>).
\<close>

datatype error = EmptyQueueAccess | ThreadNotJoinable | ThreadStillJoinable | BadFunctionCall

definition front :: "'a list \<Rightarrow> error + 'a" where
  "front xs = (case xs of [] \<Rightarrow> Inl EmptyQueueAccess | x # _ \<Rightarrow> Inr x)"

definition pop_front :: "'a list \<Rightarrow> error + 'a list" where
  "pop_front xs = (case xs of [] \<Rightarrow> Inl EmptyQueueAccess | _ # ys \<Rightarrow> Inr ys)"

subsection \<open>The state\<close>

text \<open>
  The three \<open>std::thread\<close> members are modelled by what \<open>joinable()\<close> answers. The member
  \<open>receive_callback_\<close> is modelled by whether a callback has been registered.
  \<open>local_queue\<close> is the local variable of \<open>process_callbacks\<close>. The last three fields are
  not members: \<open>pending_writes\<close> holds the buffers handed to \<open>do_async_write\<close> whose
  completion handler has not run yet, \<open>wire\<close> the bytes the transport has reported as
  transferred, in completion order, and \<open>trace\<close> the events so far.
\<close>

record Comm =
  error_m :: bool
  shutdown_m :: bool
  new_data_m :: bool
  callback_shutdown_m :: bool
  write_in_progress_m :: bool
  write_queue_m :: "WriteBuffer list"
  read_queue_m :: "ReadBuffer list"
  read_buffer_m :: "byte list"
  receive_callback_m :: bool
  main_thread_m :: bool
  io_thread_m :: bool
  callback_thread_m :: bool
  local_queue :: "ReadBuffer list"
  pending_writes :: "byte list list"
  wire :: "byte list"
  trace :: "event list"

definition steps :: "(Comm \<Rightarrow> Comm) list \<Rightarrow> Comm \<Rightarrow> Comm" where
  \<comment> \<open>statements in sequence, the first of the list first\<close>
  "steps fs s = fold (\<lambda>f. f) fs s"

definition emit :: "event \<Rightarrow> Comm \<Rightarrow> Comm" where
  "emit e s = s\<lparr>trace := trace s @ [e]\<rparr>"

definition lock :: "mutex \<Rightarrow> Comm \<Rightarrow> Comm" where
  "lock m = emit (Lock m)"

definition unlock :: "mutex \<Rightarrow> Comm \<Rightarrow> Comm" where
  "unlock m = emit (Unlock m)"

definition notify_one :: "condvar \<Rightarrow> Comm \<Rightarrow> Comm" where
  "notify_one c = emit (Notify c)"

definition store :: "flag \<Rightarrow> bool \<Rightarrow> Comm \<Rightarrow> Comm" where
  "store f v s = emit (Store f v)
     (case f of
        error_flag \<Rightarrow> s\<lparr>error_m := v\<rparr>
      | shutdown_flag \<Rightarrow> s\<lparr>shutdown_m := v\<rparr>
      | new_data_flag \<Rightarrow> s\<lparr>new_data_m := v\<rparr>
      | callback_shutdown_flag \<Rightarrow> s\<lparr>callback_shutdown_m := v\<rparr>
      | write_in_progress_flag \<Rightarrow> s\<lparr>write_in_progress_m := v\<rparr>)"

definition joinable :: "thread \<Rightarrow> Comm \<Rightarrow> bool" where
  "joinable t s = (case t of main_thread \<Rightarrow> main_thread_m s
     | io_thread \<Rightarrow> io_thread_m s | callback_thread \<Rightarrow> callback_thread_m s)"

definition set_joinable :: "thread \<Rightarrow> bool \<Rightarrow> Comm \<Rightarrow> Comm" where
  "set_joinable t v s = (case t of main_thread \<Rightarrow> s\<lparr>main_thread_m := v\<rparr>
     | io_thread \<Rightarrow> s\<lparr>io_thread_m := v\<rparr> | callback_thread \<Rightarrow> s\<lparr>callback_thread_m := v\<rparr>)"

definition thread_assign :: "thread \<Rightarrow> Comm \<Rightarrow> error + Comm" where
  \<comment> \<open>\<open>t = std::thread(...)\<close>: a new thread starts and \<open>t\<close> becomes joinable\<close>
  "thread_assign t s =
     (if joinable t s then Inl ThreadStillJoinable
      else Inr (emit (Spawn t) (set_joinable t True s)))"

definition thread_join :: "thread \<Rightarrow> Comm \<Rightarrow> error + Comm" where
  \<comment> \<open>\<open>t.join()\<close>: returns once the thread has ended; \<open>t\<close> is no longer joinable\<close>
  "thread_join t s =
     (if joinable t s then Inr (emit (Join t) (set_joinable t False s))
      else Inl ThreadNotJoinable)"

definition do_async_write :: "byte list \<Rightarrow> Comm \<Rightarrow> Comm" where
  "do_async_write bs s = emit (DoAsyncWrite bs) (s\<lparr>pending_writes := pending_writes s @ [bs]\<rparr>)"

definition read_queue_emplace_back :: "nat \<Rightarrow> Comm \<Rightarrow> Comm" where
  \<comment> \<open>\<open>read_queue_.emplace_back(read_buffer_, n)\<close>\<close>
  "read_queue_emplace_back n s =
     (let b = ReadBuffer_new (read_buffer_m s) n
      in emit (EmplaceRead b) (s\<lparr>read_queue_m := read_queue_m s @ [b]\<rparr>))"

definition write_queue_emplace_back :: "byte list \<Rightarrow> nat \<Rightarrow> Comm \<Rightarrow> Comm" where
  \<comment> \<open>\<open>write_queue_.emplace_back(p, n)\<close>, \<open>p\<close> pointing at the bytes \<open>buf\<close>\<close>
  "write_queue_emplace_back buf n s =
     (let b = WriteBuffer_new buf n
      in emit (EmplaceWrite b) (s\<lparr>write_queue_m := write_queue_m s @ [b]\<rparr>))"

subsection \<open>Construction, open and close\<close>

text \<open>
  \<open>Comm::Comm\<close> (lines 46 to 54). The scratch buffer \<open>read_buffer_\<close> is not initialised
  by the constructor: its contents are a parameter.
\<close>

definition Comm_new :: "byte list \<Rightarrow> Comm" where
  "Comm_new buf = \<lparr>error_m = False, shutdown_m = False, new_data_m = False,
     callback_shutdown_m = False, write_in_progress_m = False,
     write_queue_m = [], read_queue_m = [], read_buffer_m = buf,
     receive_callback_m = False,
     main_thread_m = False, io_thread_m = False, callback_thread_m = False,
     local_queue = [], pending_writes = [], wire = [], trace = []\<rparr>"

text \<open>\<open>Comm::register_receive_callback\<close> (lines 91 to 94).\<close>

definition register_receive_callback :: "Comm \<Rightarrow> Comm" where
  "register_receive_callback s = s\<lparr>receive_callback_m := True\<rparr>"

text \<open>
  \<open>Comm::shutdown\<close> (lines 248 to 260) and the destructor (lines 56 to 59).
\<close>

definition shutdown :: "Comm \<Rightarrow> error + Comm" where
  "shutdown s =
     (let s = steps [lock main_mutex, store shutdown_flag True, unlock main_mutex,
                     notify_one main_condition_variable] s
      in if joinable main_thread s then thread_join main_thread s else Inr s)"

definition Comm_destroy :: "Comm \<Rightarrow> error + Comm" where
  "Comm_destroy s = shutdown s"

text \<open>
  \<open>Comm::init\<close> (lines 61 to 69). The hook \<open>do_init\<close> belongs to the transport: what it
  returns is the parameter \<open>do_init_ok\<close>.
\<close>

definition init :: "bool \<Rightarrow> Comm \<Rightarrow> error + (bool \<times> Comm)" where
  "init do_init_ok s =
     (let s = emit DoInit s
      in if \<not> do_init_ok then Inr (False, s)
         else (case thread_assign main_thread s of
                 Inl e \<Rightarrow> Inl e
               | Inr s \<Rightarrow> Inr (True, s)))"

text \<open>\<open>Comm::close\<close> (lines 71 to 76).\<close>

definition close :: "Comm \<Rightarrow> error + Comm" where
  "close s = shutdown (steps [emit IoServiceStop, emit DoClose] s)"

subsection \<open>The read pipeline\<close>

text \<open>
  \<open>Comm::async_read\<close> (lines 96 to 105). The hook \<open>is_open\<close> belongs to the transport:
  what it answers is the parameter \<open>is_open\<close>.
\<close>

definition async_read :: "bool \<Rightarrow> Comm \<Rightarrow> Comm" where
  "async_read is_open s = (if \<not> is_open then s else emit DoAsyncRead s)"

text \<open>
  \<open>Comm::async_read_end\<close> (lines 107 to 128); \<open>err\<close> says whether the error code is set,
  \<open>is_open\<close> is what the transport answers when \<open>async_read\<close> asks.
\<close>

definition async_read_end :: "bool \<Rightarrow> nat \<Rightarrow> bool \<Rightarrow> Comm \<Rightarrow> Comm" where
  "async_read_end err bytes_transferred is_open s =
     (if err
      then steps [emit Cerr, lock main_mutex, store error_flag True, unlock main_mutex,
                  notify_one main_condition_variable] s
      else steps [lock callback_mutex, read_queue_emplace_back bytes_transferred,
                  store new_data_flag True, unlock callback_mutex,
                  notify_one callback_condition_variable, async_read is_open] s)"

subsection \<open>The write pipeline\<close>

text \<open>
  \<open>Comm::async_write\<close> (lines 130 to 146). The lock type \<open>mutex_lock\<close> and
  \<open>write_mutex_\<close> are declared in that header; \<open>send_bytes\<close> and
  \<open>async_write_end\<close> call \<open>async_write\<close> while they hold the lock, so it is taken to be
  re-entrant, and the scoped lock is released where the function returns.
\<close>

definition async_write :: "bool \<Rightarrow> Comm \<Rightarrow> error + Comm" where
  "async_write check_write_state s =
     (if check_write_state \<and> write_in_progress_m s then Inr s
      else
        let s = lock write_mutex s
        in if write_queue_m s = [] then Inr (unlock write_mutex s)
           else
             let s = store write_in_progress_flag True s
             in (case front (write_queue_m s) of
                   Inl e \<Rightarrow> Inl e
                 | Inr buffer \<Rightarrow>
                     Inr (steps [do_async_write (unsent buffer), unlock write_mutex] s)))"

text \<open>
  \<open>Comm::send_bytes\<close> (lines 78 to 89). \<open>WRITE_BUFFER_SIZE\<close> is a constant of the
  header: the parameter \<open>N\<close>. The loop adds \<open>N\<close> to \<open>pos\<close> until \<open>pos\<close> reaches \<open>len\<close>; it
  does not end when \<open>N = 0\<close> and \<open>len > 0\<close>, so it is a partial function and \<open>None\<close> is
  not returning. (\<open>src\<close> is an object in memory of \<open>len\<close> bytes, so \<open>pos + N\<close> does not
  wrap around for a buffer size that fits a chunk; the loop counter is a natural number.)
\<close>

partial_function (option) send_bytes_loop :: "nat \<Rightarrow> byte list \<Rightarrow> nat \<Rightarrow> Comm \<Rightarrow> Comm option" where
  "send_bytes_loop N src p s =
     (if p < length src
      then
        let num_bytes = (if length src - p > N then N else length src - p)
        in send_bytes_loop N src (p + N) (write_queue_emplace_back (drop p src) num_bytes s)
      else Some s)"

declare send_bytes_loop.simps [code]

definition send_bytes :: "nat \<Rightarrow> byte list \<Rightarrow> Comm \<Rightarrow> (error + Comm) option" where
  "send_bytes N src s =
     (case send_bytes_loop N src 0 (lock write_mutex s) of
        None \<Rightarrow> None
      | Some s \<Rightarrow>
          Some (case async_write True s of
                  Inl e \<Rightarrow> Inl e
                | Inr s \<Rightarrow> Inr (unlock write_mutex s)))"

text \<open>
  \<open>Comm::async_write_end\<close> (lines 148 to 179). \<open>buffer\<close> is a reference to the front
  element: adding to \<open>buffer.pos\<close> changes the queue.
\<close>

definition write_queue_pop_front :: "Comm \<Rightarrow> error + Comm" where
  "write_queue_pop_front s =
     (case pop_front (write_queue_m s) of
        Inl e \<Rightarrow> Inl e
      | Inr q \<Rightarrow> Inr (emit PopWrite (s\<lparr>write_queue_m := q\<rparr>)))"

definition async_write_end :: "bool \<Rightarrow> nat \<Rightarrow> Comm \<Rightarrow> error + Comm" where
  "async_write_end err bytes_transferred s =
     (if err
      then Inr (steps [emit Cerr, lock main_mutex, store error_flag True,
                       unlock main_mutex,
                       notify_one main_condition_variable] s)
      else
        let s = lock write_mutex s
        in if write_queue_m s = []
           then Inr (steps [store write_in_progress_flag False, unlock write_mutex] s)
           else
             (case front (write_queue_m s) of
                Inl e \<Rightarrow> Inl e
              | Inr buffer \<Rightarrow>
                  let buffer = buffer\<lparr>pos := size_t (pos buffer + bytes_transferred)\<rparr>;
                      s = emit (AdvanceWrite bytes_transferred)
                            (s\<lparr>write_queue_m := (write_queue_m s)[0 := buffer]\<rparr>)
                  in (case (if nbytes buffer = 0 then write_queue_pop_front s else Inr s) of
                        Inl e \<Rightarrow> Inl e
                      | Inr s \<Rightarrow>
                          if write_queue_m s = []
                          then Inr (steps [store write_in_progress_flag False,
                                           unlock write_mutex] s)
                          else (case async_write False s of
                                  Inl e \<Rightarrow> Inl e
                                | Inr s \<Rightarrow> Inr (unlock write_mutex s)))))"

subsection \<open>The supervisor\<close>

text \<open>
  \<open>condition_variable::wait(lock, pred)\<close> returns once \<open>pred\<close> holds. Run on a state where
  it does not hold, the thread stays blocked until another thread changes the state:
  no result.
\<close>

definition wait :: "condvar \<Rightarrow> (Comm \<Rightarrow> bool) \<Rightarrow> Comm \<Rightarrow> Comm option" where
  "wait c pred s = (if pred s then Some (emit (Wait c) s) else None)"

text \<open>
  \<open>Comm::run\<close> (lines 181 to 213), in two parts: \<open>run_start\<close> is lines 183 to 188, up to
  taking \<open>main_mutex_\<close>; \<open>run_wake\<close> is lines 189 to 212, the wait and what follows it,
  run on the state the supervisor finds when it is woken. \<open>run\<close> is the two in sequence,
  with no step of another thread in between.
\<close>

definition run_start :: "bool \<Rightarrow> Comm \<Rightarrow> error + Comm" where
  "run_start is_open s =
     (case thread_assign callback_thread s of
        Inl e \<Rightarrow> Inl e
      | Inr s \<Rightarrow>
          (case thread_assign io_thread (async_read is_open s) of
             Inl e \<Rightarrow> Inl e
           | Inr s \<Rightarrow> Inr (lock main_mutex s)))"

definition run_wake :: "Comm \<Rightarrow> (error + Comm) option" where
  "run_wake s =
     (case wait main_condition_variable (\<lambda>s. error_m s \<or> shutdown_m s) s of
        None \<Rightarrow> None
      | Some s \<Rightarrow>
          let s = steps [unlock main_mutex, emit IoServiceStop, lock callback_mutex,
                         store callback_shutdown_flag True,
                         unlock callback_mutex,
                         notify_one callback_condition_variable] s
          in Some (case (if joinable io_thread s then thread_join io_thread s else Inr s) of
                     Inl e \<Rightarrow> Inl e
                   | Inr s \<Rightarrow>
                       if joinable callback_thread s then thread_join callback_thread s
                       else Inr s))"

definition run :: "bool \<Rightarrow> Comm \<Rightarrow> (error + Comm) option" where
  "run is_open s =
     (case run_start is_open s of
        Inl e \<Rightarrow> Some (Inl e)
      | Inr s \<Rightarrow> run_wake s)"

subsection \<open>Callback dispatch\<close>

text \<open>
  \<open>Comm::process_callbacks\<close> (lines 215 to 246), by its parts. \<open>process_callbacks_wake\<close>
  is lines 222 to 236 of one turn of the outer loop: the result says whether the loop
  goes on (\<open>False\<close> is the \<open>break\<close>, where the scoped lock is released by leaving the
  block). \<open>process_callbacks_deliver\<close> is one turn of the inner loop (lines 241 to 243),
  \<open>process_callbacks_drain\<close> the inner loop (lines 239 to 244), and
  \<open>process_callbacks_iteration\<close> one whole turn of the outer loop.
\<close>

definition read_queue_splice :: "Comm \<Rightarrow> Comm" where
  \<comment> \<open>\<open>local_queue.splice(local_queue.end(), read_queue_)\<close>\<close>
  "read_queue_splice s =
     emit SpliceRead (s\<lparr>local_queue := local_queue s @ read_queue_m s, read_queue_m := []\<rparr>)"

definition process_callbacks_wake :: "Comm \<Rightarrow> (bool \<times> Comm) option" where
  "process_callbacks_wake s =
     (case wait callback_condition_variable (\<lambda>s. new_data_m s \<or> callback_shutdown_m s)
             (lock callback_mutex s) of
        None \<Rightarrow> None
      | Some s \<Rightarrow>
          if callback_shutdown_m s then Some (False, unlock callback_mutex s)
          else Some (True, steps [read_queue_splice, store new_data_flag False,
                                  unlock callback_mutex] s))"

definition process_callbacks_deliver :: "Comm \<Rightarrow> error + Comm" where
  "process_callbacks_deliver s =
     (case front (local_queue s) of
        Inl e \<Rightarrow> Inl e
      | Inr buffer \<Rightarrow>
          if \<not> receive_callback_m s then Inl BadFunctionCall
          else
            let s = emit (ReceiveCallback (received buffer)) s
            in (case pop_front (local_queue s) of
                  Inl e \<Rightarrow> Inl e
                | Inr q \<Rightarrow> Inr (s\<lparr>local_queue := q\<rparr>)))"

function process_callbacks_drain :: "Comm \<Rightarrow> error + Comm" where
  "process_callbacks_drain s =
     (if local_queue s = [] then Inr s
      else (case process_callbacks_deliver s of
              Inl e \<Rightarrow> Inl e
            | Inr s' \<Rightarrow> process_callbacks_drain s'))"
  by pat_completeness auto
termination
proof (relation "measure (\<lambda>s. length (local_queue s))")
  show "wf (measure (\<lambda>s. length (local_queue s)))"
    by simp
next
  fix s s'
  assume "local_queue s \<noteq> []" and "process_callbacks_deliver s = Inr s'"
  then show "(s', s) \<in> measure (\<lambda>s. length (local_queue s))"
    by (auto simp: process_callbacks_deliver_def front_def pop_front_def emit_def
        split: list.splits if_splits)
qed

declare process_callbacks_drain.simps [simp del]

definition process_callbacks_iteration :: "Comm \<Rightarrow> (error + bool \<times> Comm) option" where
  "process_callbacks_iteration s =
     (case process_callbacks_wake s of
        None \<Rightarrow> None
      | Some (go_on, s) \<Rightarrow>
          if \<not> go_on then Some (Inr (False, s))
          else Some (case process_callbacks_drain s of
                       Inl e \<Rightarrow> Inl e
                     | Inr s \<Rightarrow> Inr (True, s)))"

subsection \<open>The write pipeline and its transport\<close>

text \<open>
  The steps that change the write pipeline: a call of \<open>send_bytes\<close>, and the completion
  of a pending write, with success and a number of bytes transferred or with an error.
  A completion takes one of the pending buffers (the one at index \<open>i\<close>); a successful
  one transfers at most the bytes of that buffer, which are then on the wire. Each step
  is atomic: \<open>send_bytes\<close> and the successful \<open>async_write_end\<close> hold \<open>write_mutex_\<close>
  from their first to their last access to the queue and the flag.
\<close>

datatype wr_action = Send "byte list" | WriteDone nat nat | WriteFail nat

fun wr_enabled :: "wr_action \<Rightarrow> Comm \<Rightarrow> bool" where
  "wr_enabled (Send src) s = True"
| "wr_enabled (WriteDone i n) s =
     (i < length (pending_writes s) \<and> n \<le> length (pending_writes s ! i))"
| "wr_enabled (WriteFail i) s = (i < length (pending_writes s))"

definition complete_write :: "nat \<Rightarrow> nat \<Rightarrow> Comm \<Rightarrow> Comm" where
  "complete_write i n s =
     s\<lparr>pending_writes := take i (pending_writes s) @ drop (Suc i) (pending_writes s),
       wire := wire s @ take n (pending_writes s ! i)\<rparr>"

fun wr_fire :: "nat \<Rightarrow> wr_action \<Rightarrow> Comm \<Rightarrow> (error + Comm) option" where
  "wr_fire N (Send src) s = send_bytes N src s"
| "wr_fire N (WriteDone i n) s = Some (async_write_end False n (complete_write i n s))"
| "wr_fire N (WriteFail i) s = Some (async_write_end True 0 (complete_write i 0 s))"

text \<open>
  \<open>wr_exec N as s\<close> is the state after the steps \<open>as\<close>, when each is enabled where it is
  taken and returns without error.
\<close>

fun wr_exec :: "nat \<Rightarrow> wr_action list \<Rightarrow> Comm \<Rightarrow> Comm option" where
  "wr_exec N [] s = Some s"
| "wr_exec N (a # as) s =
     (if wr_enabled a s
      then (case wr_fire N a s of Some (Inr s') \<Rightarrow> wr_exec N as s' | _ \<Rightarrow> None)
      else None)"

fun sent :: "wr_action list \<Rightarrow> byte list" where
  "sent [] = []"
| "sent (Send src # as) = src @ sent as"
| "sent (_ # as) = sent as"

fun passed :: "event list \<Rightarrow> byte list list" where
  "passed [] = []"
| "passed (DoAsyncWrite bs # es) = bs # passed es"
| "passed (_ # es) = passed es"

subsection \<open>The read pipeline, its transport and the callback thread\<close>

text \<open>
  The steps between the I/O thread and the callback thread while the dispatch loop
  runs: a successful read completion, for which the transport has put the payload \<open>r\<close>
  at the start of the scratch buffer; a wake-up of the callback thread at its wait, that
  goes on to the inner loop; and one turn of the inner loop. The callback thread is at
  the wait when its local queue is empty. A wake-up that finds the shutdown request
  leaves the loop: it is not a step of the running loop.
\<close>

datatype rd_action = ReadDone "byte list" bool | Wake | Deliver

fun rd_enabled :: "rd_action \<Rightarrow> Comm \<Rightarrow> bool" where
  "rd_enabled (ReadDone r is_open) s = (length r \<le> length (read_buffer_m s))"
| "rd_enabled Wake s = (local_queue s = [])"
| "rd_enabled Deliver s = (local_queue s \<noteq> [])"

definition transport_fill :: "byte list \<Rightarrow> Comm \<Rightarrow> Comm" where
  "transport_fill r s = s\<lparr>read_buffer_m := r @ drop (length r) (read_buffer_m s)\<rparr>"

fun rd_fire :: "rd_action \<Rightarrow> Comm \<Rightarrow> Comm option" where
  "rd_fire (ReadDone r is_open) s =
     Some (async_read_end False (length r) is_open (transport_fill r s))"
| "rd_fire Wake s =
     (case process_callbacks_wake s of Some (True, s') \<Rightarrow> Some s' | _ \<Rightarrow> None)"
| "rd_fire Deliver s =
     (case process_callbacks_deliver s of Inr s' \<Rightarrow> Some s' | Inl e \<Rightarrow> None)"

fun rd_exec :: "rd_action list \<Rightarrow> Comm \<Rightarrow> Comm option" where
  "rd_exec [] s = Some s"
| "rd_exec (a # as) s =
     (if rd_enabled a s
      then (case rd_fire a s of Some s' \<Rightarrow> rd_exec as s' | None \<Rightarrow> None)
      else None)"

fun arrived :: "rd_action list \<Rightarrow> byte list list" where
  "arrived [] = []"
| "arrived (ReadDone r is_open # as) = r # arrived as"
| "arrived (_ # as) = arrived as"

fun callbacks :: "event list \<Rightarrow> byte list list" where
  "callbacks [] = []"
| "callbacks (ReceiveCallback bs # es) = bs # callbacks es"
| "callbacks (_ # es) = callbacks es"

subsection \<open>The split of a payload, as the spec words it\<close>

text \<open>
  The spec has \<open>send\<close> split a payload into chunks of at most the maximum chunk size,
  in order, all but possibly the last of exactly that size. \<open>chunks N xs\<close> is that split,
  written without reference to the code, \<open>chunk c\<close> a fresh buffer that holds \<open>c\<close>, and
  \<open>kicked s\<close> the state after the kick that ends \<open>send_bytes\<close>.
\<close>

function chunks :: "nat \<Rightarrow> 'a list \<Rightarrow> 'a list list" where
  "chunks N xs = (if N = 0 \<or> xs = [] then [] else take N xs # chunks N (drop N xs))"
  by pat_completeness auto
termination
  by (relation "measure (\<lambda>(N, xs). length xs)") auto

declare chunks.simps [simp del]

definition chunk :: "byte list \<Rightarrow> WriteBuffer" where
  "chunk c = \<lparr>wdata = c, pos = 0\<rparr>"

definition kicked :: "Comm \<Rightarrow> Comm" where
  "kicked s = (case async_write True s of Inr s' \<Rightarrow> unlock write_mutex s' | Inl e \<Rightarrow> s)"

subsection \<open>Notions for the write pipeline\<close>

text \<open>
  \<open>after_write n q\<close> is the write queue \<open>q\<close> after a completion of \<open>n\<close> bytes for its
  front chunk, \<open>issue q\<close> the write that a kick on the queue \<open>q\<close> hands to the
  transport, if any, and \<open>one_write s\<close> says that at most one write is pending, and
  that \<open>write_in_progress_\<close> is set when one is.
\<close>

definition after_write :: "nat \<Rightarrow> WriteBuffer list \<Rightarrow> WriteBuffer list" where
  "after_write n q =
     (case q of [] \<Rightarrow> []
      | b # q' \<Rightarrow> let b' = b\<lparr>pos := size_t (pos b + n)\<rparr>
                  in if nbytes b' = 0 then q' else b' # q')"

definition issue :: "WriteBuffer list \<Rightarrow> byte list list" where
  "issue q = (if q = [] then [] else [unsent (hd q)])"

definition one_write :: "Comm \<Rightarrow> bool" where
  "one_write s \<longleftrightarrow>
     pending_writes s = [] \<or> (write_in_progress_m s \<and> length (pending_writes s) = 1)"

text \<open>
  For runs without a failed write: \<open>wr_good N s\<close> says that every queued chunk has
  unsent bytes and at most \<open>N\<close> bytes, that \<open>write_in_progress_\<close> is set exactly when
  the queue is not empty, and that the pending writes are the one for the unsent rest of
  the front chunk. \<open>queued_bytes\<close> are the unsent bytes of the queue, \<open>passed_bytes\<close> all
  the bytes handed to \<open>do_async_write\<close> so far, in order. \<open>whole_writes N as s\<close> says that
  every completion of the run \<open>as\<close> from \<open>s\<close> transfers all the bytes of its buffer,
  \<open>accounted s\<close> that every byte handed to the transport is on the wire or pending, and
  \<open>drain_actions q\<close> are the completions that transfer each chunk of \<open>q\<close> in one piece.
\<close>

definition wr_good :: "nat \<Rightarrow> Comm \<Rightarrow> bool" where
  "wr_good N s \<longleftrightarrow>
     (\<forall>b \<in> set (write_queue_m s). pos b < length (wdata b) \<and> length (wdata b) \<le> N)
     \<and> write_in_progress_m s = (write_queue_m s \<noteq> [])
     \<and> pending_writes s = issue (write_queue_m s)"

definition drain_actions :: "WriteBuffer list \<Rightarrow> wr_action list" where
  "drain_actions q = map (\<lambda>b. WriteDone 0 (length (unsent b))) q"

fun whole_writes :: "nat \<Rightarrow> wr_action list \<Rightarrow> Comm \<Rightarrow> bool" where
  "whole_writes N [] s = True"
| "whole_writes N (a # as) s =
     ((case a of WriteDone i n \<Rightarrow> n = length (pending_writes s ! i) | _ \<Rightarrow> True)
      \<and> (case wr_fire N a s of Some (Inr s') \<Rightarrow> whole_writes N as s' | _ \<Rightarrow> True))"

definition passed_bytes :: "Comm \<Rightarrow> byte list" where
  "passed_bytes s = concat (passed (trace s))"

definition queued_bytes :: "Comm \<Rightarrow> byte list" where
  "queued_bytes s = concat (map unsent (write_queue_m s))"

definition accounted :: "Comm \<Rightarrow> bool" where
  "accounted s \<longleftrightarrow> passed_bytes s = wire s @ concat (pending_writes s)"

subsection \<open>Notions for the callback dispatch\<close>

text \<open>
  \<open>rd_ok s\<close>: a callback is registered, no shutdown of the callback thread is requested,
  and \<open>new_data_\<close> is set when the read queue is not empty. \<open>undelivered s\<close> are the
  payloads of the chunks that wait in the local queue of the callback thread and in the
  read queue, in order. \<open>callback_drain s\<close> are the steps the callback thread takes from
  \<open>s\<close> when no further read completes: the turns of the inner loop for its local queue,
  then a wake-up and the turns for what the read queue held.
\<close>

definition rd_ok :: "Comm \<Rightarrow> bool" where
  "rd_ok s \<longleftrightarrow> receive_callback_m s \<and> \<not> callback_shutdown_m s
     \<and> (read_queue_m s \<noteq> [] \<longrightarrow> new_data_m s)"

definition undelivered :: "Comm \<Rightarrow> byte list list" where
  "undelivered s = map received (local_queue s @ read_queue_m s)"

definition callback_drain :: "Comm \<Rightarrow> rd_action list" where
  "callback_drain s =
     replicate (length (local_queue s)) Deliver
     @ (if read_queue_m s = [] then []
        else Wake # replicate (length (read_queue_m s)) Deliver)"

subsection \<open>Reading a trace\<close>

text \<open>
  \<open>happens_before a b xs\<close>: both events occur in \<open>xs\<close>, and \<open>b\<close> does not occur before
  the first \<open>a\<close>. \<open>returned_trace\<close> is the trace of the state a call returns.
\<close>

definition happens_before :: "'a \<Rightarrow> 'a \<Rightarrow> 'a list \<Rightarrow> bool" where
  "happens_before a b xs \<longleftrightarrow>
     a \<in> set xs \<and> b \<in> set xs \<and> b \<notin> set (takeWhile (\<lambda>x. x \<noteq> a) xs)"

definition returned_trace :: "(error + Comm) option \<Rightarrow> event list" where
  "returned_trace r = (case r of Some (Inr s) \<Rightarrow> trace s | _ \<Rightarrow> [])"

section \<open>Properties\<close>

lemmas stmt_defs = steps_def emit_def lock_def unlock_def notify_one_def store_def joinable_def
  set_joinable_def thread_assign_def thread_join_def do_async_write_def
  read_queue_emplace_back_def write_queue_emplace_back_def front_def pop_front_def

lemmas run_simps = send_bytes_def send_bytes_loop.simps async_write_def async_write_end_def
  write_queue_pop_front_def complete_write_def stmt_defs Comm_new_def Let_def
  WriteBuffer_new_def unsent_def nbytes_def size_t_def

lemmas rd_simps = process_callbacks_wake_def process_callbacks_deliver_def wait_def
  read_queue_splice_def async_read_end_def async_read_def transport_fill_def
  register_receive_callback_def ReadBuffer_new_def received_def stmt_defs Comm_new_def Let_def

subsection \<open>Completions that report an error\<close>

text \<open>
  Claim C7. A read or write completion that reports a transport error prints the
  message, sets \<open>error_\<close> while it holds \<open>main_mutex_\<close>, notifies the supervisor's
  condition variable and returns. Nothing else changes and nothing else happens: the
  read handler arms no read, the write handler leaves the write queue and the pending
  writes as they are and issues no write, whatever the write queue holds.
\<close>

theorem error_completion_sets_error_and_stops:
  "async_read_end True n is_open s =
     s\<lparr>error_m := True,
       trace := trace s @ [Cerr, Lock main_mutex, Store error_flag True, Unlock main_mutex,
                           Notify main_condition_variable]\<rparr>
   \<and> async_write_end True n s =
     Inr (s\<lparr>error_m := True,
           trace := trace s @ [Cerr, Lock main_mutex, Store error_flag True,
                               Unlock main_mutex, Notify main_condition_variable]\<rparr>)"
  by (simp add: async_read_end_def async_write_end_def stmt_defs)

theorem error_completion_sets_error_and_stops_witness:
  "async_write_end True 0 ((Comm_new [])\<lparr>write_queue_m := [\<lparr>wdata = [1, 2], pos = 1\<rparr>],
       write_in_progress_m := True\<rparr>) =
     Inr ((Comm_new [])\<lparr>write_queue_m := [\<lparr>wdata = [1, 2], pos = 1\<rparr>],
       write_in_progress_m := True, error_m := True,
       trace := [Cerr, Lock main_mutex, Store error_flag True, Unlock main_mutex,
                 Notify main_condition_variable]\<rparr>)"
  using error_completion_sets_error_and_stops
    [of 0 True "(Comm_new [])\<lparr>write_queue_m := [\<lparr>wdata = [1, 2], pos = 1\<rparr>],
       write_in_progress_m := True\<rparr>"]
  by (simp add: Comm_new_def)

subsection \<open>The write completion never reads an empty queue\<close>

lemma async_write_no_error: "async_write chk s \<noteq> Inl e"
  by (cases "write_queue_m s") (simp_all add: async_write_def stmt_defs Let_def)

lemma async_write_end_no_error: "async_write_end err n s \<noteq> Inl e"
proof (cases "err \<or> write_queue_m s = []")
  case True
  then show ?thesis by (auto simp: async_write_end_def stmt_defs)
next
  case False
  then obtain b q where q: "write_queue_m s = b # q" and e: "\<not> err"
    by (cases "write_queue_m s") auto
  show ?thesis
    using q e async_write_no_error
    by (auto simp: async_write_end_def write_queue_pop_front_def stmt_defs Let_def
        split: sum.splits)
qed

text \<open>
  Claim C10. A successful write completion that finds the write queue empty clears
  \<open>write_in_progress_\<close> under the write lock and returns: it does nothing else, and in
  particular does not take the front of the queue. No call of \<open>async_write_end\<close> ends
  in an access to an empty queue.
\<close>

theorem write_completion_on_empty_queue:
  "write_queue_m s = [] \<Longrightarrow>
     async_write_end False n s =
       Inr (s\<lparr>write_in_progress_m := False,
             trace := trace s @ [Lock write_mutex, Store write_in_progress_flag False,
                                 Unlock write_mutex]\<rparr>)
     \<and> async_write_end err n' s' \<noteq> Inl EmptyQueueAccess"
  by (simp add: async_write_end_no_error) (simp add: async_write_end_def stmt_defs)

theorem write_completion_on_empty_queue_witness:
  "async_write_end False 3 ((Comm_new [])\<lparr>write_in_progress_m := True\<rparr>) =
     Inr ((Comm_new [])\<lparr>write_in_progress_m := False,
            trace := [Lock write_mutex, Store write_in_progress_flag False,
                      Unlock write_mutex]\<rparr>)
   \<and> async_write_end False 1 ((Comm_new [])\<lparr>write_queue_m := [\<lparr>wdata = [7], pos = 0\<rparr>]\<rparr>)
       \<noteq> Inl EmptyQueueAccess"
  using write_completion_on_empty_queue
    [of "(Comm_new [])\<lparr>write_in_progress_m := True\<rparr>" 3 False 1
        "(Comm_new [])\<lparr>write_queue_m := [\<lparr>wdata = [7], pos = 0\<rparr>]\<rparr>"]
  by (simp add: Comm_new_def)

subsection \<open>Opening\<close>

text \<open>
  Claim C8. When the transport's \<open>do_init\<close> fails, \<open>init\<close> returns \<open>false\<close> and the state
  is the one before the call (only the call of the hook is on the trace): on an object
  as constructed, every flag and queue is as constructed, no thread handle is joinable
  and no thread has been started. When \<open>do_init\<close> succeeds on a channel whose
  supervisor handle holds no thread (as constructed), \<open>init\<close> starts the supervisor
  thread, and nothing else, and returns \<open>true\<close>.
\<close>

theorem init_starts_supervisor_only_on_success:
  "init False s = Inr (False, s\<lparr>trace := trace s @ [DoInit]\<rparr>)
   \<and> (\<not> main_thread_m s \<longrightarrow>
        init True s = Inr (True, s\<lparr>main_thread_m := True,
                                    trace := trace s @ [DoInit, Spawn main_thread]\<rparr>))
   \<and> init False (Comm_new buf) = Inr (False, (Comm_new buf)\<lparr>trace := [DoInit]\<rparr>)
   \<and> init True (Comm_new buf) =
        Inr (True, (Comm_new buf)\<lparr>main_thread_m := True, trace := [DoInit, Spawn main_thread]\<rparr>)"
  by (simp add: init_def stmt_defs Comm_new_def)

theorem init_starts_supervisor_only_on_success_witness:
  "\<not> main_thread_m (register_receive_callback (Comm_new [0, 0]))
   \<and> init True (register_receive_callback (Comm_new [0, 0])) =
       Inr (True, (register_receive_callback (Comm_new [0, 0]))
                    \<lparr>main_thread_m := True, trace := [DoInit, Spawn main_thread]\<rparr>)
   \<and> init False (register_receive_callback (Comm_new [0, 0])) =
       Inr (False, (register_receive_callback (Comm_new [0, 0]))\<lparr>trace := [DoInit]\<rparr>)"
  using init_starts_supervisor_only_on_success
    [of "register_receive_callback (Comm_new [0, 0])"]
  by (simp add: Comm_new_def register_receive_callback_def)

subsection \<open>Closing twice\<close>

lemma shutdown_closed:
  "\<not> main_thread_m s \<Longrightarrow>
     shutdown s = Inr (s\<lparr>shutdown_m := True,
                         trace := trace s @ [Lock main_mutex, Store shutdown_flag True,
                                             Unlock main_mutex,
                                             Notify main_condition_variable]\<rparr>)"
  by (simp add: shutdown_def stmt_defs Let_def)

lemma shutdown_result: "shutdown s = Inr s1 \<Longrightarrow> \<not> main_thread_m s1 \<and> shutdown_m s1"
  by (auto simp: shutdown_def stmt_defs Let_def split: if_splits)

lemma shutdown_returns: "\<exists>s1. shutdown s = Inr s1"
  by (simp add: shutdown_def stmt_defs Let_def)

text \<open>
  Claim C9. On a channel that is closed already, that is, on every state a call of
  \<open>close\<close> has returned and on every state whose supervisor handle is not joinable, a
  call of \<open>close\<close> and the destructor return without error and join nothing:
  \<open>shutdown\<close> joins the supervisor thread only if it is joinable. On a state returned
  by \<open>close\<close> they change no member. No call of \<open>close\<close> or of the destructor ends in
  the error of joining a thread that is not joinable.
\<close>

theorem close_again_returns_without_join:
  "(close s = Inr s1 \<longrightarrow>
      close s1 =
        Inr (s1\<lparr>trace := trace s1 @ [IoServiceStop, DoClose, Lock main_mutex,
                                      Store shutdown_flag True, Unlock main_mutex,
                                      Notify main_condition_variable]\<rparr>)
      \<and> Comm_destroy s1 =
        Inr (s1\<lparr>trace := trace s1 @ [Lock main_mutex, Store shutdown_flag True,
                                      Unlock main_mutex,
                                      Notify main_condition_variable]\<rparr>))
   \<and> (\<not> main_thread_m s \<longrightarrow>
      close s =
        Inr (s\<lparr>shutdown_m := True,
               trace := trace s @ [IoServiceStop, DoClose, Lock main_mutex,
                                   Store shutdown_flag True, Unlock main_mutex,
                                   Notify main_condition_variable]\<rparr>)
      \<and> Comm_destroy s =
        Inr (s\<lparr>shutdown_m := True,
               trace := trace s @ [Lock main_mutex, Store shutdown_flag True,
                                   Unlock main_mutex,
                                   Notify main_condition_variable]\<rparr>))
   \<and> close s \<noteq> Inl e \<and> Comm_destroy s \<noteq> Inl e"
proof -
  have closed: "close t =
        Inr (t\<lparr>shutdown_m := True,
               trace := trace t @ [IoServiceStop, DoClose, Lock main_mutex,
                                   Store shutdown_flag True, Unlock main_mutex,
                                   Notify main_condition_variable]\<rparr>)
      \<and> Comm_destroy t =
        Inr (t\<lparr>shutdown_m := True,
               trace := trace t @ [Lock main_mutex, Store shutdown_flag True,
                                   Unlock main_mutex,
                                   Notify main_condition_variable]\<rparr>)"
    if "\<not> main_thread_m t" for t
    using that by (simp add: close_def Comm_destroy_def shutdown_closed emit_def steps_def)
  have again: "close s1 =
        Inr (s1\<lparr>trace := trace s1 @ [IoServiceStop, DoClose, Lock main_mutex,
                                      Store shutdown_flag True, Unlock main_mutex,
                                      Notify main_condition_variable]\<rparr>)
      \<and> Comm_destroy s1 =
        Inr (s1\<lparr>trace := trace s1 @ [Lock main_mutex, Store shutdown_flag True,
                                      Unlock main_mutex,
                                      Notify main_condition_variable]\<rparr>)"
    if s1: "close s = Inr s1"
  proof -
    from s1 have c: "\<not> main_thread_m s1" "shutdown_m s1"
      using shutdown_result by (auto simp: close_def)
    from c(2) have "s1\<lparr>shutdown_m := True\<rparr> = s1"
      by simp
    with closed [OF c(1)] show ?thesis
      by simp
  qed
  have "close s \<noteq> Inl e" "Comm_destroy s \<noteq> Inl e"
    using shutdown_returns [of s]
      shutdown_returns [of "steps [emit IoServiceStop, emit DoClose] s"]
    by (auto simp: close_def Comm_destroy_def)
  with closed [of s] again show ?thesis
    by blast
qed

theorem close_again_returns_without_join_witness:
  "close ((Comm_new [])\<lparr>main_thread_m := True\<rparr>) =
     Inr ((Comm_new [])\<lparr>shutdown_m := True,
            trace := [IoServiceStop, DoClose, Lock main_mutex, Store shutdown_flag True,
                      Unlock main_mutex, Notify main_condition_variable,
                      Join main_thread]\<rparr>)
   \<and> close ((Comm_new [])\<lparr>shutdown_m := True,
            trace := [IoServiceStop, DoClose, Lock main_mutex, Store shutdown_flag True,
                      Unlock main_mutex, Notify main_condition_variable,
                      Join main_thread]\<rparr>) =
     Inr ((Comm_new [])\<lparr>shutdown_m := True,
            trace := [IoServiceStop, DoClose, Lock main_mutex, Store shutdown_flag True,
                      Unlock main_mutex, Notify main_condition_variable,
                      Join main_thread,
                      IoServiceStop, DoClose, Lock main_mutex, Store shutdown_flag True,
                      Unlock main_mutex, Notify main_condition_variable]\<rparr>)"
proof -
  let ?s = "(Comm_new [])\<lparr>main_thread_m := True\<rparr>"
  let ?s1 = "(Comm_new [])\<lparr>shutdown_m := True,
            trace := [IoServiceStop, DoClose, Lock main_mutex, Store shutdown_flag True,
                      Unlock main_mutex, Notify main_condition_variable,
                      Join main_thread]\<rparr>"
  have 1: "close ?s = Inr ?s1"
    by (simp add: close_def shutdown_def stmt_defs Let_def Comm_new_def)
  from close_again_returns_without_join [of ?s ?s1] 1 show ?thesis
    by (simp add: Comm_new_def)
qed

subsection \<open>The order of the shutdown protocol\<close>

text \<open>
  Claim C5, as the code has it. Woken with \<open>error_\<close> or \<open>shutdown_\<close> set, the supervisor
  releases its lock, stops the event loop, sets \<open>callback_shutdown_\<close> under the callback
  lock and notifies the callback thread, then joins the I/O thread if it is joinable,
  then joins the callback thread if it is joinable, in this order, and returns after
  that: both threads are signalled before either is joined.
\<close>

theorem run_wake_signals_both_then_joins:
  "error_m s \<or> shutdown_m s \<Longrightarrow>
     run_wake s =
       Some (Inr (s\<lparr>callback_shutdown_m := True, io_thread_m := False,
                    callback_thread_m := False,
                    trace := trace s
                      @ [Wait main_condition_variable, Unlock main_mutex, IoServiceStop,
                         Lock callback_mutex, Store callback_shutdown_flag True,
                         Unlock callback_mutex, Notify callback_condition_variable]
                      @ (if io_thread_m s then [Join io_thread] else [])
                      @ (if callback_thread_m s then [Join callback_thread] else [])\<rparr>))"
  by (auto simp add: run_wake_def wait_def stmt_defs)

theorem run_wake_signals_both_then_joins_witness:
  "run_wake ((Comm_new [])\<lparr>error_m := True, io_thread_m := True, callback_thread_m := True\<rparr>) =
     Some (Inr ((Comm_new [])\<lparr>error_m := True, callback_shutdown_m := True,
                 trace := [Wait main_condition_variable, Unlock main_mutex, IoServiceStop,
                           Lock callback_mutex, Store callback_shutdown_flag True,
                           Unlock callback_mutex, Notify callback_condition_variable,
                           Join io_thread, Join callback_thread]\<rparr>))"
  using run_wake_signals_both_then_joins
    [of "(Comm_new [])\<lparr>error_m := True, io_thread_m := True, callback_thread_m := True\<rparr>"]
  by (simp add: Comm_new_def)

text \<open>
  The order of the claim, with the join of the I/O thread before \<open>callback_shutdown_\<close>
  is set, is not the order of the code: on a channel with both threads running and
  shutdown requested, the flag is set before the I/O thread is joined.
\<close>

theorem run_wake_join_io_not_before_callback_signal:
  "\<not> happens_before (Join io_thread) (Store callback_shutdown_flag True)
       (returned_trace (run_wake ((Comm_new [])\<lparr>shutdown_m := True, io_thread_m := True,
                                                callback_thread_m := True\<rparr>)))"
  by (simp add: run_wake_def wait_def stmt_defs returned_trace_def happens_before_def
      Comm_new_def)

subsection \<open>A successful read completion\<close>

text \<open>
  Claim C6, as the code has it. A successful read completion takes the callback lock,
  copies the first \<open>bytes_transferred\<close> bytes of the scratch buffer into a new chunk at
  the end of the read queue, sets \<open>new_data_\<close>, releases the lock, notifies the callback
  thread, and last calls \<open>async_read\<close>, which arms the next read if the transport is
  still open and does nothing if it is not. The handler does nothing else: it does not
  call the callback.
\<close>

theorem read_completion_enqueues_then_rearms_if_open:
  "async_read_end False n is_open s =
     s\<lparr>read_queue_m := read_queue_m s @ [ReadBuffer_new (read_buffer_m s) n],
       new_data_m := True,
       trace := trace s
         @ [Lock callback_mutex, EmplaceRead (ReadBuffer_new (read_buffer_m s) n),
            Store new_data_flag True, Unlock callback_mutex,
            Notify callback_condition_variable]
         @ (if is_open then [DoAsyncRead] else [])\<rparr>"
  by (simp add: async_read_end_def async_read_def stmt_defs Let_def)

theorem read_completion_enqueues_then_rearms_if_open_witness:
  "async_read_end False 2 True (Comm_new [5, 6, 7]) =
     (Comm_new [5, 6, 7])\<lparr>read_queue_m := [\<lparr>rdata = [5, 6], len = 2\<rparr>],
       new_data_m := True,
       trace := [Lock callback_mutex, EmplaceRead \<lparr>rdata = [5, 6], len = 2\<rparr>,
                 Store new_data_flag True, Unlock callback_mutex,
                 Notify callback_condition_variable, DoAsyncRead]\<rparr>"
  using read_completion_enqueues_then_rearms_if_open [of 2 True "Comm_new [5, 6, 7]"]
  by (simp add: Comm_new_def ReadBuffer_new_def)

text \<open>
  A successful completion on a transport that is no longer open arms no read.
\<close>

theorem read_completion_closed_transport_arms_nothing:
  "DoAsyncRead \<notin> set (trace (async_read_end False 0 False (Comm_new [])))"
  by (simp add: async_read_end_def async_read_def stmt_defs Let_def Comm_new_def)

subsection \<open>Chunking\<close>

lemma ceil_step:
  fixes N L :: nat
  assumes "0 < N" "0 < L"
  shows "Suc ((L - N + N - 1) div N) = (L + N - 1) div N"
proof -
  have a: "L + N - 1 = (L - 1) + N"
    using assms by arith
  have r: "(L + N - 1) div N = (L - 1) div N + 1"
    unfolding a using assms(1) by (simp add: div_add_self2)
  have "(L - N + N - 1) div N = (L - 1) div N"
  proof (cases "N \<le> L")
    case True
    then have "L - N + N - 1 = L - 1" by arith
    then show ?thesis by simp
  next
    case False
    then have "L - N + N - 1 = N - 1" by arith
    moreover have "(N - 1) div N = 0" using assms(1) by simp
    moreover have "(L - 1) div N = 0" using False assms by simp
    ultimately show ?thesis by simp
  qed
  then show ?thesis using r by simp
qed

lemma chunks_Nil [simp]: "chunks N [] = []"
  by (simp add: chunks.simps)

lemma chunks_step: "0 < N \<Longrightarrow> xs \<noteq> [] \<Longrightarrow> chunks N xs = take N xs # chunks N (drop N xs)"
  by (subst chunks.simps) simp

lemma concat_chunks: "0 < N \<Longrightarrow> concat (chunks N xs) = xs"
proof (induction N xs rule: chunks.induct)
  case (1 N xs)
  then show ?case by (cases "xs = []") (simp_all add: chunks_step)
qed

lemma length_chunks: "0 < N \<Longrightarrow> length (chunks N xs) = (length xs + N - 1) div N"
proof (induction N xs rule: chunks.induct)
  case (1 N xs)
  show ?case
  proof (cases "xs = []")
    case True
    with 1(2) show ?thesis by simp
  next
    case False
    then have l: "0 < length xs" by simp
    have ih: "length (chunks N (drop N xs)) = (length (drop N xs) + N - 1) div N"
      using 1 False by simp
    have "length (chunks N xs) = Suc (length (chunks N (drop N xs)))"
      using 1(2) False by (simp add: chunks_step)
    also have "\<dots> = Suc ((length xs - N + N - 1) div N)"
      unfolding ih by simp
    also have "\<dots> = (length xs + N - 1) div N"
      using 1(2) l by (rule ceil_step)
    finally show ?thesis .
  qed
qed

lemma chunks_sizes: "0 < N \<Longrightarrow> c \<in> set (chunks N xs) \<Longrightarrow> c \<noteq> [] \<and> length c \<le> N"
proof (induction N xs rule: chunks.induct)
  case (1 N xs)
  then show ?case by (cases "xs = []") (auto simp: chunks_step)
qed

lemma chunks_full: "0 < N \<Longrightarrow> c \<in> set (butlast (chunks N xs)) \<Longrightarrow> length c = N"
proof (induction N xs rule: chunks.induct)
  case (1 N xs)
  show ?case
  proof (cases "xs = []")
    case True
    with 1 show ?thesis by simp
  next
    case False
    show ?thesis
    proof (cases "drop N xs = []")
      case True
      with 1 False show ?thesis by (simp add: chunks_step)
    next
      case d: False
      then have ne: "chunks N (drop N xs) \<noteq> []" using 1(2) by (simp add: chunks_step)
      have "c \<in> set (take N xs # butlast (chunks N (drop N xs)))"
        using 1(3) 1(2) False ne by (simp add: chunks_step)
      then consider "c = take N xs" | "c \<in> set (butlast (chunks N (drop N xs)))" by auto
      then show ?thesis
      proof cases
        case 1
        then show ?thesis using d by simp
      next
        case 2
        with "1.IH" \<open>0 < N\<close> False show ?thesis by simp
      qed
    qed
  qed
qed

lemma send_bytes_loop_eq:
  "0 < N \<Longrightarrow> send_bytes_loop N src p s =
     Some (s\<lparr>write_queue_m := write_queue_m s @ map chunk (chunks N (drop p src)),
             trace := trace s @ map (\<lambda>c. EmplaceWrite (chunk c)) (chunks N (drop p src))\<rparr>)"
proof (induction "length src - p" arbitrary: p s rule: less_induct)
  case less
  show ?case
  proof (cases "p < length src")
    case False
    then show ?thesis by (subst send_bytes_loop.simps) simp
  next
    case True
    then have ne: "drop p src \<noteq> []" by simp
    define c where "c = take N (drop p src)"
    define s1 where "s1 = s\<lparr>write_queue_m := write_queue_m s @ [chunk c],
                            trace := trace s @ [EmplaceWrite (chunk c)]\<rparr>"
    have t: "take (if N < length src - p then N else length src - p) (drop p src) = c"
      by (simp add: c_def)
    have e: "write_queue_emplace_back (drop p src)
               (if N < length src - p then N else length src - p) s = s1"
      unfolding write_queue_emplace_back_def WriteBuffer_new_def t
      by (simp add: emit_def s1_def chunk_def Let_def)
    have step: "send_bytes_loop N src p s = send_bytes_loop N src (p + N) s1"
      using True by (subst send_bytes_loop.simps) (simp only: if_True Let_def e)
    have "length src - (p + N) < length src - p"
      using True less.prems by simp
    from less.hyps [OF this less.prems, of s1]
    have ih: "send_bytes_loop N src (p + N) s1 =
        Some (s1\<lparr>write_queue_m := write_queue_m s1 @ map chunk (chunks N (drop (p + N) src)),
                trace := trace s1 @ map (\<lambda>c. EmplaceWrite (chunk c)) (chunks N (drop (p + N) src))\<rparr>)" .
    have d: "drop (p + N) src = drop N (drop p src)"
      by (simp add: add.commute)
    have ch: "chunks N (drop p src) = c # chunks N (drop (p + N) src)"
      unfolding d c_def using less.prems ne by (rule chunks_step)
    show ?thesis
      unfolding step ih ch by (simp add: s1_def)
  qed
qed

lemma async_write_eq:
  "async_write chk s =
     Inr (if chk \<and> write_in_progress_m s then s
          else if write_queue_m s = []
          then s\<lparr>trace := trace s @ [Lock write_mutex, Unlock write_mutex]\<rparr>
          else s\<lparr>write_in_progress_m := True,
                 pending_writes := pending_writes s @ [unsent (hd (write_queue_m s))],
                 trace := trace s @ [Lock write_mutex, Store write_in_progress_flag True,
                                     DoAsyncWrite (unsent (hd (write_queue_m s))),
                                     Unlock write_mutex]\<rparr>)"
  by (cases "write_queue_m s") (simp_all add: async_write_def stmt_defs Let_def)

lemma send_bytes_eq:
  assumes "0 < N"
  shows "send_bytes N src s =
     Some (Inr (kicked
       (s\<lparr>write_queue_m := write_queue_m s @ map chunk (chunks N src),
          trace := trace s @ Lock write_mutex # map (\<lambda>c. EmplaceWrite (chunk c)) (chunks N src)\<rparr>)))"
  by (simp add: send_bytes_def send_bytes_loop_eq [OF assms] lock_def emit_def kicked_def async_write_eq)

lemma send_bytes_queue:
  assumes "0 < N" and "send_bytes N src s = Some (Inr s')"
  shows "write_queue_m s' = write_queue_m s @ map chunk (chunks N src)"
  using assms(2) unfolding send_bytes_eq [OF assms(1)]
  by (auto simp: kicked_def async_write_eq unlock_def emit_def)

text \<open>
  Claim C2. For a maximum chunk size \<open>N > 0\<close>, \<open>send_bytes\<close> of \<open>M\<close> bytes returns, and
  has appended to the write queue \<open>(M + N - 1) div N\<close> chunks, that is \<open>ceil(M/N)\<close>: each
  holds at most \<open>N\<close> bytes and starts unsent, each but the last holds exactly \<open>N\<close>
  bytes, and their payloads in queue order make up the payload. This holds for every
  \<open>M\<close>, so for \<open>M > N\<close>.
\<close>

theorem send_bytes_enqueues_ceil_chunks:
  assumes "0 < N"
  shows "\<exists>s' q. send_bytes N src s = Some (Inr s')
     \<and> write_queue_m s' = write_queue_m s @ q
     \<and> length q = (length src + N - 1) div N
     \<and> (\<forall>b \<in> set q. length (wdata b) \<le> N \<and> pos b = 0)
     \<and> (\<forall>b \<in> set (butlast q). length (wdata b) = N)
     \<and> concat (map wdata q) = src"
proof -
  obtain s' where s': "send_bytes N src s = Some (Inr s')"
    by (simp add: send_bytes_eq [OF assms])
  let ?q = "map chunk (chunks N src)"
  have 1: "write_queue_m s' = write_queue_m s @ ?q"
    using assms s' by (rule send_bytes_queue)
  have 2: "length ?q = (length src + N - 1) div N"
    using assms by (simp add: length_chunks)
  have 3: "\<forall>b \<in> set ?q. length (wdata b) \<le> N \<and> pos b = 0"
    using chunks_sizes [OF assms] by (auto simp: chunk_def)
  have 4: "\<forall>b \<in> set (butlast ?q). length (wdata b) = N"
    using chunks_full [OF assms] by (auto simp: chunk_def map_butlast [symmetric])
  have "map wdata ?q = chunks N src"
    by (simp add: chunk_def comp_def)
  then have 5: "concat (map wdata ?q) = src"
    using assms by (simp add: concat_chunks)
  from s' 1 2 3 4 5 show ?thesis by blast
qed


theorem send_bytes_enqueues_ceil_chunks_witness:
  "\<exists>s' q. send_bytes 2 [1, 2, 3, 4, 5] (Comm_new []) = Some (Inr s')
     \<and> write_queue_m s' = q
     \<and> length q = 3
     \<and> (\<forall>b \<in> set q. length (wdata b) \<le> 2 \<and> pos b = 0)
     \<and> (\<forall>b \<in> set (butlast q). length (wdata b) = 2)
     \<and> concat (map wdata q) = [1, 2, 3, 4, 5]"
  using send_bytes_enqueues_ceil_chunks [of 2 "[1, 2, 3, 4, 5]" "Comm_new []"]
  by (auto simp: numeral_3_eq_3 Comm_new_def)

subsection \<open>At most one write is outstanding\<close>

lemma passed_append: "passed (xs @ ys) = passed xs @ passed ys"
  by (induction xs rule: passed.induct) simp_all

lemma send_bytes_loop_zero:
  assumes "send_bytes_loop N src p s = Some y"
  shows "N = 0 \<longrightarrow> \<not> p < length src"
proof (rule send_bytes_loop.raw_induct
    [where P = "\<lambda>N src p s y. N = 0 \<longrightarrow> \<not> p < length src", OF _ assms])
  fix f :: "nat \<Rightarrow> byte list \<Rightarrow> nat \<Rightarrow> Comm \<Rightarrow> Comm option" and N src p s y
  assume ih: "\<And>N src p s y. f N src p s = Some y \<Longrightarrow> N = 0 \<longrightarrow> \<not> p < length src"
  assume eq: "(if p < length src
      then let num_bytes = if N < length src - p then N else length src - p
           in f N src (p + N) (write_queue_emplace_back (drop p src) num_bytes s)
      else Some s) = Some y"
  show "N = 0 \<longrightarrow> \<not> p < length src"
  proof (intro impI notI)
    assume N: "N = 0" and p: "p < length src"
    from eq p N have "f 0 src p (write_queue_emplace_back (drop p src) 0 s) = Some y"
      by (simp add: Let_def)
    from ih [OF this] p show False by simp
  qed
qed

lemma send_bytes_result:
  assumes "send_bytes N src s = Some r"
  shows "r = Inr (kicked
       (s\<lparr>write_queue_m := write_queue_m s @ map chunk (chunks N src),
          trace := trace s @ Lock write_mutex # map (\<lambda>c. EmplaceWrite (chunk c)) (chunks N src)\<rparr>))"
proof (cases "0 < N")
  case True
  from assms show ?thesis unfolding send_bytes_eq [OF True] by simp
next
  case False
  then have N: "N = 0" by simp
  obtain y where y: "send_bytes_loop N src 0 (lock write_mutex s) = Some y"
    using assms by (auto simp: send_bytes_def split: option.splits)
  from send_bytes_loop_zero [OF y] N have src: "src = []" by simp
  have "send_bytes_loop N [] 0 (lock write_mutex s) = Some (lock write_mutex s)"
    by (subst send_bytes_loop.simps) simp
  with assms show ?thesis
    by (simp add: send_bytes_def src kicked_def async_write_eq lock_def emit_def)
qed

lemma kicked_fields:
  "write_queue_m (kicked s) = write_queue_m s"
  "wire (kicked s) = wire s"
  "write_in_progress_m (kicked s) = (write_in_progress_m s \<or> write_queue_m s \<noteq> [])"
  "pending_writes (kicked s) =
     pending_writes s @ (if write_in_progress_m s then [] else issue (write_queue_m s))"
  "passed (trace (kicked s)) =
     passed (trace s) @ (if write_in_progress_m s then [] else issue (write_queue_m s))"
  by (simp_all add: kicked_def async_write_eq unlock_def emit_def issue_def passed_append)

lemma async_write_end_fields:
  "\<exists>s'. async_write_end False n s = Inr s'
     \<and> write_queue_m s' = after_write n (write_queue_m s)
     \<and> write_in_progress_m s' = (after_write n (write_queue_m s) \<noteq> [])
     \<and> pending_writes s' = pending_writes s @ issue (after_write n (write_queue_m s))
     \<and> wire s' = wire s
     \<and> passed (trace s') = passed (trace s) @ issue (after_write n (write_queue_m s))"
proof (cases "write_queue_m s")
  case Nil
  then show ?thesis
    by (simp add: async_write_end_def stmt_defs after_write_def issue_def passed_append)
next
  case (Cons b q)
  define b' where "b' = b\<lparr>pos := size_t (pos b + n)\<rparr>"
  show ?thesis
  proof (cases "nbytes b' = 0")
    case True
    then show ?thesis
      using Cons
      by (cases q)
        (simp_all add: async_write_end_def write_queue_pop_front_def async_write_eq stmt_defs
          after_write_def issue_def passed_append Let_def b'_def)
  next
    case False
    then show ?thesis
      using Cons
      by (simp add: async_write_end_def write_queue_pop_front_def async_write_eq stmt_defs
          after_write_def issue_def passed_append Let_def b'_def)
  qed
qed


lemma one_write_send:
  assumes "one_write s" and "send_bytes N src s = Some (Inr s')"
  shows "one_write s'"
proof -
  from send_bytes_result [OF assms(2)] have "s' = kicked
       (s\<lparr>write_queue_m := write_queue_m s @ map chunk (chunks N src),
          trace := trace s @ Lock write_mutex # map (\<lambda>c. EmplaceWrite (chunk c)) (chunks N src)\<rparr>)"
    by simp
  with assms(1) show ?thesis
    by (auto simp: one_write_def kicked_fields issue_def)
qed

lemma one_write_completion:
  assumes "one_write s" and "i < length (pending_writes s)"
    and "async_write_end err n (complete_write i k s) = Inr s'"
  shows "one_write s'"
proof -
  from assms(1,2) have "length (pending_writes s) = 1" and i: "i = 0"
    by (auto simp: one_write_def)
  then have p: "pending_writes (complete_write i k s) = []"
    by (cases "pending_writes s") (simp_all add: complete_write_def)
  show ?thesis
  proof (cases err)
    case True
    with assms(3) p show ?thesis
      by (auto simp: async_write_end_def stmt_defs one_write_def)
  next
    case False
    with async_write_end_fields [of n "complete_write i k s"] assms(3) p show ?thesis
      by (auto simp: one_write_def issue_def)
  qed
qed

lemma wr_exec_one_write:
  "one_write s \<Longrightarrow> wr_exec N as s = Some s' \<Longrightarrow> one_write s'"
proof (induction as arbitrary: s)
  case Nil
  then show ?case by simp
next
  case (Cons a as)
  from Cons.prems(2) obtain s1 where en: "wr_enabled a s" and f: "wr_fire N a s = Some (Inr s1)"
    and r: "wr_exec N as s1 = Some s'"
    by (auto split: if_splits option.splits sum.splits)
  have "one_write s1"
  proof (cases a)
    case (Send src)
    with f Cons.prems(1) show ?thesis by (auto intro: one_write_send)
  next
    case (WriteDone i n)
    with f en Cons.prems(1) show ?thesis by (auto intro: one_write_completion)
  next
    case (WriteFail i)
    with f en Cons.prems(1) show ?thesis by (auto intro: one_write_completion)
  qed
  from Cons.IH [OF this r] show ?case .
qed

text \<open>
  Claim C3. After every sequence of calls of \<open>send_bytes\<close> and of completions of pending
  writes (successful with any byte count the pending buffer allows, or failed), from
  the constructed state and for every buffer size, at most one write is pending at the
  transport. A kick from \<open>send_bytes\<close> (\<open>check_write_state\<close> true) on a state with
  \<open>write_in_progress_\<close> set changes nothing; a kick from the completion handler
  (\<open>check_write_state\<close> false) on a non-empty queue issues the write for the front chunk
  whatever the flag is.
\<close>

theorem at_most_one_write_outstanding:
  assumes "wr_exec N as (Comm_new buf) = Some s"
  shows "length (pending_writes s) \<le> 1
    \<and> (write_in_progress_m t \<longrightarrow> async_write True t = Inr t)
    \<and> (write_queue_m t \<noteq> [] \<longrightarrow>
         async_write False t =
           Inr (t\<lparr>write_in_progress_m := True,
                  pending_writes := pending_writes t @ [unsent (hd (write_queue_m t))],
                  trace := trace t @ [Lock write_mutex, Store write_in_progress_flag True,
                                      DoAsyncWrite (unsent (hd (write_queue_m t))),
                                      Unlock write_mutex]\<rparr>))"
proof -
  have "one_write (Comm_new buf)"
    by (simp add: one_write_def Comm_new_def)
  from wr_exec_one_write [OF this assms] have "length (pending_writes s) \<le> 1"
    by (auto simp: one_write_def)
  then show ?thesis
    by (simp add: async_write_eq)
qed


theorem at_most_one_write_outstanding_witness:
  "\<exists>s. wr_exec 2 [Send [1, 2, 3], WriteDone 0 1, Send [4], WriteDone 0 1, Send [5],
                   WriteFail 0, Send [6]] (Comm_new []) = Some s
     \<and> length (pending_writes s) \<le> 1"
proof -
  have "\<exists>s. wr_exec 2 [Send [1, 2, 3], WriteDone 0 1, Send [4], WriteDone 0 1, Send [5],
                   WriteFail 0, Send [6]] (Comm_new []) = Some s"
    by (simp add: run_simps)
  then obtain s where s: "wr_exec 2 [Send [1, 2, 3], WriteDone 0 1, Send [4], WriteDone 0 1,
                   Send [5], WriteFail 0, Send [6]] (Comm_new []) = Some s" ..
  from at_most_one_write_outstanding [OF s] s show ?thesis
    by blast
qed

subsection \<open>Chunking is transparent on the wire\<close>

lemma wrap_sub:
  fixes l p M :: nat
  assumes "p \<le> l" and "l < M"
  shows "(l + M - p) mod M = l - p"
proof -
  have "l + M - p = (l - p) + M"
    using assms(1) by arith
  then have "(l + M - p) mod M = (l - p) mod M"
    by (simp only: mod_add_self2)
  also have "\<dots> = l - p"
    using assms(2) by (intro mod_less) arith
  finally show ?thesis .
qed

lemma nbytes_in_range:
  assumes "pos b \<le> length (wdata b)" and "length (wdata b) < 2 ^ 64"
  shows "nbytes b = length (wdata b) - pos b"
  unfolding nbytes_def size_t_def using assms by (rule wrap_sub)

lemma unsent_in_range:
  assumes "pos b \<le> length (wdata b)" and "length (wdata b) < 2 ^ 64"
  shows "unsent b = drop (pos b) (wdata b)"
  by (simp add: unsent_def nbytes_in_range [OF assms])

lemma unsent_chunk: "length c < 2 ^ 64 \<Longrightarrow> unsent (chunk c) = c"
  using unsent_in_range [of "chunk c"] by (simp add: chunk_def)

lemma concat_unsent_chunks:
  assumes "0 < N" and "N < 2 ^ 64"
  shows "concat (map unsent (map chunk (chunks N src))) = src"
proof -
  have "map (\<lambda>c. unsent (chunk c)) (chunks N src) = chunks N src"
  proof (rule map_idI)
    fix c assume "c \<in> set (chunks N src)"
    with chunks_sizes [OF assms(1)] assms(2) have "length c < 2 ^ 64" by fastforce
    then show "unsent (chunk c) = c" by (rule unsent_chunk)
  qed
  then have "map unsent (map chunk (chunks N src)) = chunks N src"
    by (simp add: comp_def)
  with concat_chunks [OF assms(1)] show ?thesis by simp
qed

lemma after_write_good:
  assumes b: "pos b < length (wdata b)" "length (wdata b) \<le> N" and N: "N < 2 ^ 64"
    and n: "n \<le> length (unsent b)"
  shows "after_write n (b # q) =
           (if n = length (unsent b) then q else b\<lparr>pos := pos b + n\<rparr> # q)"
    and "take n (unsent b) @ concat (map unsent (after_write n (b # q))) =
           concat (map unsent (b # q))"
    and "n \<noteq> length (unsent b) \<Longrightarrow> unsent (b\<lparr>pos := pos b + n\<rparr>) = drop n (unsent b)"
proof -
  have len: "length (wdata b) < 2 ^ 64" using b(2) N by simp
  have u: "unsent b = drop (pos b) (wdata b)"
    using b(1) len by (simp add: unsent_in_range)
  then have n': "pos b + n \<le> length (wdata b)" using n b(1) by simp
  then have sz: "size_t (pos b + n) = pos b + n"
    using len by (simp add: size_t_def)
  define b' where "b' = b\<lparr>pos := pos b + n\<rparr>"
  have b'f: "pos b' = pos b + n" "wdata b' = wdata b"
    by (simp_all add: b'_def)
  have nb: "nbytes b' = length (wdata b) - (pos b + n)"
    using nbytes_in_range [of b'] n' len unfolding b'f by simp
  have u': "unsent b' = drop n (unsent b)"
    using unsent_in_range [of b'] n' len unfolding b'f u by (simp add: add.commute)
  have lu: "length (unsent b) = length (wdata b) - pos b"
    unfolding u by simp
  have z: "nbytes b' = 0 \<longleftrightarrow> n = length (unsent b)"
    unfolding nb lu using n' by arith
  have aw: "after_write n (b # q) = (if nbytes b' = 0 then q else b' # q)"
    by (simp add: after_write_def sz Let_def b'_def)
  show 1: "after_write n (b # q) =
           (if n = length (unsent b) then q else b\<lparr>pos := pos b + n\<rparr> # q)"
    using aw z unfolding b'_def by (simp only:)
  show "take n (unsent b) @ concat (map unsent (after_write n (b # q))) =
           concat (map unsent (b # q))"
  proof (cases "n = length (unsent b)")
    case True
    then show ?thesis unfolding 1 by simp
  next
    case False
    have "unsent (b\<lparr>pos := pos b + n\<rparr>) = drop n (unsent b)"
      using u' unfolding b'_def .
    then have "take n (unsent b) @ unsent (b\<lparr>pos := pos b + n\<rparr>) = unsent b"
      by simp
    then show ?thesis
      unfolding 1 using False by simp
  qed
  show "unsent (b\<lparr>pos := pos b + n\<rparr>) = drop n (unsent b)"
    using u' unfolding b'_def .
qed


lemma issue_append: "q \<noteq> [] \<Longrightarrow> issue (q @ q') = issue q"
  by (simp add: issue_def)

lemma passed_emplace: "passed (map (\<lambda>c. EmplaceWrite (chunk c)) cs) = []"
  by (induction cs) simp_all

lemma send_bytes_fields:
  assumes "send_bytes N src s = Some (Inr s')"
  shows "write_queue_m s' = write_queue_m s @ map chunk (chunks N src)"
    and "wire s' = wire s"
    and "write_in_progress_m s' =
           (write_in_progress_m s \<or> write_queue_m s @ map chunk (chunks N src) \<noteq> [])"
    and "pending_writes s' = pending_writes s @
           (if write_in_progress_m s then []
            else issue (write_queue_m s @ map chunk (chunks N src)))"
    and "passed (trace s') = passed (trace s) @
           (if write_in_progress_m s then []
            else issue (write_queue_m s @ map chunk (chunks N src)))"
proof -
  from send_bytes_result [OF assms] have s': "s' = kicked
       (s\<lparr>write_queue_m := write_queue_m s @ map chunk (chunks N src),
          trace := trace s @ Lock write_mutex # map (\<lambda>c. EmplaceWrite (chunk c)) (chunks N src)\<rparr>)"
    by simp
  show "write_queue_m s' = write_queue_m s @ map chunk (chunks N src)"
    and "wire s' = wire s"
    and "write_in_progress_m s' =
           (write_in_progress_m s \<or> write_queue_m s @ map chunk (chunks N src) \<noteq> [])"
    and "pending_writes s' = pending_writes s @
           (if write_in_progress_m s then []
            else issue (write_queue_m s @ map chunk (chunks N src)))"
    unfolding s' kicked_fields by simp_all
  show "passed (trace s') = passed (trace s) @
           (if write_in_progress_m s then []
            else issue (write_queue_m s @ map chunk (chunks N src)))"
    unfolding s' kicked_fields by (simp add: passed_append passed_emplace)
qed

lemma good_send:
  assumes g: "wr_good N s" and N: "0 < N" "N < 2 ^ 64"
    and s': "send_bytes N src s = Some (Inr s')"
  shows "wr_good N s'" and "wire s' @ queued_bytes s' = wire s @ queued_bytes s @ src"
proof -
  note f = send_bytes_fields [OF s']
  let ?new = "map chunk (chunks N src)"
  have new: "\<forall>b \<in> set ?new. pos b < length (wdata b) \<and> length (wdata b) \<le> N"
    using chunks_sizes [OF N(1)] by (auto simp: chunk_def)
  have a: "\<forall>b \<in> set (write_queue_m s'). pos b < length (wdata b) \<and> length (wdata b) \<le> N"
    unfolding f(1) using g new by (auto simp: wr_good_def)
  have b: "write_in_progress_m s' = (write_queue_m s' \<noteq> [])"
    unfolding f(1) f(3) using g by (auto simp: wr_good_def)
  have c: "pending_writes s' = issue (write_queue_m s')"
  proof (cases "write_queue_m s = []")
    case True
    with g have "\<not> write_in_progress_m s" "pending_writes s = []"
      by (simp_all add: wr_good_def issue_def)
    then show ?thesis unfolding f(1) f(4) using True by simp
  next
    case False
    with g have "write_in_progress_m s" "pending_writes s = issue (write_queue_m s)"
      by (simp_all add: wr_good_def)
    then show ?thesis unfolding f(1) f(4) using False by (simp add: issue_append)
  qed
  from a b c show "wr_good N s'" by (simp add: wr_good_def)
  show "wire s' @ queued_bytes s' = wire s @ queued_bytes s @ src"
    unfolding queued_bytes_def f(1) f(2) using concat_unsent_chunks [OF N] by simp
qed

lemma good_done:
  assumes g: "wr_good N s" and N: "N < 2 ^ 64"
    and i: "i < length (pending_writes s)" and n: "n \<le> length (pending_writes s ! i)"
    and s': "async_write_end False n (complete_write i n s) = Inr s'"
  shows "wr_good N s'" and "wire s' @ queued_bytes s' = wire s @ queued_bytes s"
    and "n = length (pending_writes s ! i) \<Longrightarrow> write_queue_m s' = tl (write_queue_m s)"
proof -
  from g i obtain b q where q: "write_queue_m s = b # q"
    by (cases "write_queue_m s") (auto simp: wr_good_def issue_def)
  with g have p: "pending_writes s = [unsent b]"
    by (simp add: wr_good_def issue_def)
  with i have i0: "i = 0" by simp
  from p n i0 have n': "n \<le> length (unsent b)" by simp
  from g q have b: "pos b < length (wdata b)" "length (wdata b) \<le> N"
    and rest: "\<forall>b \<in> set q. pos b < length (wdata b) \<and> length (wdata b) \<le> N"
    by (simp_all add: wr_good_def)
  note aw = after_write_good(1,2) [OF b N n', of q]
  let ?s1 = "complete_write i n s"
  have s1: "write_queue_m ?s1 = b # q" "pending_writes ?s1 = []"
    "wire ?s1 = wire s @ take n (unsent b)"
    using q p i0 by (simp_all add: complete_write_def)
  from async_write_end_fields [of n ?s1] s'
  have f: "write_queue_m s' = after_write n (b # q)"
    "write_in_progress_m s' = (after_write n (b # q) \<noteq> [])"
    "pending_writes s' = issue (after_write n (b # q))"
    "wire s' = wire s @ take n (unsent b)"
    unfolding s1 by simp_all
  have len: "length (wdata b) < 2 ^ 64" using b(2) N by simp
  have u: "unsent b = drop (pos b) (wdata b)"
    using b(1) len by (simp add: unsent_in_range)
  have a: "\<forall>c \<in> set (after_write n (b # q)). pos c < length (wdata c) \<and> length (wdata c) \<le> N"
  proof (cases "n = length (unsent b)")
    case True
    then show ?thesis unfolding aw(1) using rest by simp
  next
    case False
    with n' have "n < length (unsent b)" by simp
    then have "pos b + n < length (wdata b)" unfolding u by simp
    then show ?thesis unfolding aw(1) using False rest b(2) by simp
  qed
  from a f show "wr_good N s'" by (simp add: wr_good_def)
  show "wire s' @ queued_bytes s' = wire s @ queued_bytes s"
    unfolding queued_bytes_def f q using aw(2) by simp
  show "write_queue_m s' = tl (write_queue_m s)" if "n = length (pending_writes s ! i)"
    using that unfolding f(1) aw(1) q p i0 by simp
qed

lemma wr_exec_append:
  "wr_exec N (as @ bs) s =
     (case wr_exec N as s of None \<Rightarrow> None | Some s1 \<Rightarrow> wr_exec N bs s1)"
  by (induction as arbitrary: s) (auto split: option.splits sum.splits)

lemma wr_exec_good:
  assumes "wr_good N s" and "0 < N" and "N < 2 ^ 64" and "\<forall>i. WriteFail i \<notin> set as"
    and "wr_exec N as s = Some s'"
  shows "wr_good N s' \<and> wire s' @ queued_bytes s' = wire s @ queued_bytes s @ sent as"
  using assms(1,4,5)
proof (induction as arbitrary: s)
  case Nil
  then show ?case by simp
next
  case (Cons a as)
  from Cons.prems(3) obtain s1 where en: "wr_enabled a s" and f: "wr_fire N a s = Some (Inr s1)"
    and r: "wr_exec N as s1 = Some s'"
    by (auto split: if_splits option.splits sum.splits)
  from Cons.prems(2) have nf: "\<forall>i. WriteFail i \<notin> set as" by auto
  have 1: "wr_good N s1 \<and> wire s1 @ queued_bytes s1 = wire s @ queued_bytes s @ sent [a]"
  proof (cases a)
    case (Send src)
    with f have "send_bytes N src s = Some (Inr s1)" by simp
    from good_send [OF Cons.prems(1) assms(2,3) this] Send show ?thesis by simp
  next
    case (WriteDone i n)
    with f en have "i < length (pending_writes s)" "n \<le> length (pending_writes s ! i)"
      "async_write_end False n (complete_write i n s) = Inr s1" by simp_all
    from good_done(1,2) [OF Cons.prems(1) assms(3) this] WriteDone show ?thesis by simp
  next
    case (WriteFail i)
    with Cons.prems(2) show ?thesis by auto
  qed
  from Cons.IH [OF _ nf r] 1
  have "wr_good N s' \<and> wire s' @ queued_bytes s' = wire s1 @ queued_bytes s1 @ sent as"
    by simp
  moreover have "sent (a # as) = sent [a] @ sent as"
    by (cases a) simp_all
  ultimately show ?case using 1 by (metis append.assoc)
qed


lemma accounted_send:
  assumes "accounted s" and "send_bytes N src s = Some (Inr s')"
  shows "accounted s'"
  using assms(1) unfolding accounted_def passed_bytes_def send_bytes_fields [OF assms(2)]
  by simp

lemma accounted_done:
  assumes a: "accounted s" and o: "one_write s"
    and i: "i < length (pending_writes s)" and n: "n = length (pending_writes s ! i)"
    and s': "async_write_end False n (complete_write i n s) = Inr s'"
  shows "accounted s'"
proof -
  from o i obtain x where p: "pending_writes s = [x]" and i0: "i = 0"
    by (cases "pending_writes s") (auto simp: one_write_def)
  let ?s1 = "complete_write i n s"
  have s1: "pending_writes ?s1 = []" "wire ?s1 = wire s @ x" "trace ?s1 = trace s"
    using p i0 n by (simp_all add: complete_write_def)
  from async_write_end_fields [of n ?s1] s'
  have f: "pending_writes s' = issue (after_write n (write_queue_m ?s1))"
    "wire s' = wire s @ x"
    "passed (trace s') = passed (trace s) @ issue (after_write n (write_queue_m ?s1))"
    unfolding s1 by simp_all
  from a p show ?thesis
    unfolding accounted_def passed_bytes_def f by simp
qed

lemma wr_exec_accounted:
  assumes "accounted s" and "one_write s" and "\<forall>i. WriteFail i \<notin> set as"
    and "whole_writes N as s" and "wr_exec N as s = Some s'"
  shows "accounted s'"
  using assms
proof (induction as arbitrary: s)
  case Nil
  then show ?case by simp
next
  case (Cons a as)
  from Cons.prems(5) obtain s1 where en: "wr_enabled a s" and f: "wr_fire N a s = Some (Inr s1)"
    and r: "wr_exec N as s1 = Some s'"
    by (auto split: if_splits option.splits sum.splits)
  from Cons.prems(3) have nf: "\<forall>i. WriteFail i \<notin> set as" by auto
  from Cons.prems(4) f have w: "whole_writes N as s1" by simp
  have o: "one_write s1"
    using wr_exec_one_write [of s N "[a]" s1] Cons.prems(2) en f by simp
  have "accounted s1"
  proof (cases a)
    case (Send src)
    with f have "send_bytes N src s = Some (Inr s1)" by simp
    with Cons.prems(1) show ?thesis by (rule accounted_send)
  next
    case (WriteDone i n)
    with f en Cons.prems(4)
    have "i < length (pending_writes s)" "n = length (pending_writes s ! i)"
      "async_write_end False n (complete_write i n s) = Inr s1" by simp_all
    from accounted_done [OF Cons.prems(1,2) this] show ?thesis .
  next
    case (WriteFail i)
    with Cons.prems(3) show ?thesis by auto
  qed
  from Cons.IH [OF this o nf w r] show ?case .
qed

lemma drain_good:
  assumes "wr_good N s" and "N < 2 ^ 64"
  shows "\<exists>s'. wr_exec N (drain_actions (write_queue_m s)) s = Some s'
           \<and> write_queue_m s' = [] \<and> wire s' = wire s @ queued_bytes s"
  using assms(1)
proof (induction "write_queue_m s" arbitrary: s)
  case Nil
  then show ?case by (simp add: drain_actions_def queued_bytes_def)
next
  case (Cons b q)
  from Cons.prems Cons.hyps(2) [symmetric] have p: "pending_writes s = [unsent b]"
    by (simp add: wr_good_def issue_def)
  let ?n = "length (unsent b)"
  obtain s1 where s1: "async_write_end False ?n (complete_write 0 ?n s) = Inr s1"
    using async_write_end_fields [of ?n "complete_write 0 ?n s"] by blast
  have i: "0 < length (pending_writes s)" and n: "?n \<le> length (pending_writes s ! 0)"
    and n': "?n = length (pending_writes s ! 0)"
    using p by simp_all
  note d = good_done [OF Cons.prems assms(2) i n s1]
  from d(3) [OF n'] Cons.hyps(2) [symmetric] have q: "q = write_queue_m s1" by simp
  from Cons.hyps(1) [OF q d(1)] obtain s' where
    s': "wr_exec N (drain_actions (write_queue_m s1)) s1 = Some s'"
      "write_queue_m s' = []" "wire s' = wire s1 @ queued_bytes s1"
    by blast
  have "drain_actions (write_queue_m s) = WriteDone 0 ?n # drain_actions (write_queue_m s1)"
    unfolding Cons.hyps(2) [symmetric] q [symmetric] by (simp add: drain_actions_def)
  then have "wr_exec N (drain_actions (write_queue_m s)) s = Some s'"
    using s1 s'(1) p by simp
  with s'(2,3) d(2) show ?case by simp
qed

text \<open>
  Claim C1, as the code has it. Take a buffer size \<open>N\<close> with \<open>0 < N < 2 ^ 64\<close> and any
  sequence of calls of \<open>send_bytes\<close> and successful completions of the pending write,
  each transferring at most the bytes of its buffer, from the constructed state. Then
  the bytes the transport has reported as transferred, in completion order, followed by
  the unsent bytes of the queued chunks, are the payloads of the calls in call order;
  so the transferred bytes are these payloads once the queue is empty. The pending
  write is always the one for the unsent rest of the front chunk, and the completions
  that transfer each queued chunk in one piece empty the queue. The buffers handed to
  \<open>do_async_write\<close> are these bytes when every completion transfers its whole buffer:
  after a completion that transfers a part, the rest is handed over again.
\<close>

theorem wire_bytes_are_sent_bytes:
  assumes "0 < N" and "N < 2 ^ 64" and "\<forall>i. WriteFail i \<notin> set as"
    and "wr_exec N as (Comm_new buf) = Some s"
  shows "wire s @ queued_bytes s = sent as
    \<and> (write_queue_m s = [] \<longrightarrow> wire s = sent as)
    \<and> pending_writes s = issue (write_queue_m s)
    \<and> (whole_writes N as (Comm_new buf) \<longrightarrow> passed_bytes s = wire s @ concat (pending_writes s))
    \<and> (\<exists>s'. wr_exec N (as @ drain_actions (write_queue_m s)) (Comm_new buf) = Some s'
           \<and> write_queue_m s' = [] \<and> wire s' = sent as)"
proof -
  have g0: "wr_good N (Comm_new buf)"
    by (simp add: wr_good_def Comm_new_def issue_def)
  have q0: "wire (Comm_new buf) = []" "queued_bytes (Comm_new buf) = []"
    by (simp_all add: Comm_new_def queued_bytes_def)
  from wr_exec_good [OF g0 assms] have g: "wr_good N s"
    and w: "wire s @ queued_bytes s = sent as"
    unfolding q0 by simp_all
  have 2: "write_queue_m s = [] \<longrightarrow> wire s = sent as"
    using w by (auto simp: queued_bytes_def)
  from g have 3: "pending_writes s = issue (write_queue_m s)"
    by (simp add: wr_good_def)
  have a0: "accounted (Comm_new buf)" "one_write (Comm_new buf)"
    by (simp_all add: accounted_def passed_bytes_def one_write_def Comm_new_def)
  have 4: "whole_writes N as (Comm_new buf) \<longrightarrow>
      passed_bytes s = wire s @ concat (pending_writes s)"
    using wr_exec_accounted [OF a0 assms(3) _ assms(4)] by (simp add: accounted_def)
  from drain_good [OF g assms(2)] obtain s' where
    "wr_exec N (drain_actions (write_queue_m s)) s = Some s'"
    "write_queue_m s' = []" "wire s' = wire s @ queued_bytes s"
    by blast
  with w assms(4) have 5: "\<exists>s'. wr_exec N (as @ drain_actions (write_queue_m s)) (Comm_new buf) = Some s'
           \<and> write_queue_m s' = [] \<and> wire s' = sent as"
    by (simp add: wr_exec_append)
  from w 2 3 4 5 show ?thesis by blast
qed


theorem wire_bytes_are_sent_bytes_witness:
  "\<exists>s. wr_exec 2 [Send [1, 2, 3], WriteDone 0 1, Send [4], WriteDone 0 1, WriteDone 0 1,
                   WriteDone 0 1] (Comm_new []) = Some s
     \<and> write_queue_m s = [] \<and> wire s = [1, 2, 3, 4]"
proof -
  let ?as = "[Send [1, 2, 3], WriteDone 0 1, Send [4], WriteDone 0 1, WriteDone 0 1,
              WriteDone 0 1]"
  have "\<exists>s. wr_exec 2 ?as (Comm_new []) = Some s \<and> write_queue_m s = []"
    by (simp add: run_simps)
  then obtain s where s: "wr_exec 2 ?as (Comm_new []) = Some s" and q: "write_queue_m s = []"
    by blast
  have "\<forall>i. WriteFail i \<notin> set ?as"
    by simp
  from wire_bytes_are_sent_bytes [OF _ _ this s] q have "wire s = sent ?as"
    by simp
  with s q show ?thesis
    by simp
qed

text \<open>
  The buffers handed to the write operation are not the payload when a completion
  transfers a part of its buffer: for one call with the bytes 1, 2 and two completions
  of one byte each, the queue is empty and nothing is pending, and the buffers handed
  over were 1, 2 and then 2.
\<close>

theorem passed_bytes_repeat_after_partial_write:
  "map_option passed_bytes
     (wr_exec 2 [Send [1, 2], WriteDone 0 1, WriteDone 0 1] (Comm_new [])) = Some [1, 2, 2]
   \<and> sent [Send [1, 2], WriteDone 0 1, WriteDone 0 1] = [1, 2]
   \<and> map_option write_queue_m
     (wr_exec 2 [Send [1, 2], WriteDone 0 1, WriteDone 0 1] (Comm_new [])) = Some []
   \<and> map_option pending_writes
     (wr_exec 2 [Send [1, 2], WriteDone 0 1, WriteDone 0 1] (Comm_new [])) = Some []"
  by (simp add: run_simps passed_bytes_def)

subsection \<open>Callback dispatch\<close>

lemma callbacks_append: "callbacks (xs @ ys) = callbacks xs @ callbacks ys"
  by (induction xs rule: callbacks.induct) simp_all

lemma callbacks_map: "callbacks (map (\<lambda>b. ReceiveCallback (received b)) q) = map received q"
  by (induction q) simp_all

lemma wake_eq:
  assumes "new_data_m s" and "\<not> callback_shutdown_m s"
  shows "process_callbacks_wake s =
     Some (True, s\<lparr>local_queue := local_queue s @ read_queue_m s, read_queue_m := [],
                    new_data_m := False,
                    trace := trace s @ [Lock callback_mutex, Wait callback_condition_variable,
                                        SpliceRead, Store new_data_flag False,
                                        Unlock callback_mutex]\<rparr>)"
  using assms
  by (simp add: process_callbacks_wake_def wait_def read_queue_splice_def stmt_defs)

lemma deliver_eq:
  assumes "receive_callback_m s" and "local_queue s = b # q"
  shows "process_callbacks_deliver s =
     Inr (s\<lparr>local_queue := q, trace := trace s @ [ReceiveCallback (received b)]\<rparr>)"
  using assms by (simp add: process_callbacks_deliver_def stmt_defs Let_def)

lemma drain_eq:
  assumes "receive_callback_m s"
  shows "process_callbacks_drain s =
     Inr (s\<lparr>local_queue := [],
           trace := trace s @ map (\<lambda>b. ReceiveCallback (received b)) (local_queue s)\<rparr>)"
  using assms
proof (induction "local_queue s" arbitrary: s)
  case Nil
  then show ?case
    by (subst process_callbacks_drain.simps) (simp add: Nil.hyps [symmetric])
next
  case (Cons b q)
  let ?s1 = "s\<lparr>local_queue := q, trace := trace s @ [ReceiveCallback (received b)]\<rparr>"
  have d: "process_callbacks_deliver s = Inr ?s1"
    using Cons.prems Cons.hyps(2) [symmetric] by (rule deliver_eq)
  have "process_callbacks_drain s = process_callbacks_drain ?s1"
    by (subst process_callbacks_drain.simps) (simp add: d Cons.hyps(2) [symmetric])
  also have "\<dots> = Inr (?s1\<lparr>local_queue := [],
           trace := trace ?s1 @ map (\<lambda>b. ReceiveCallback (received b)) (local_queue ?s1)\<rparr>)"
    using Cons.prems by (intro Cons.hyps(1)) simp_all
  finally show ?case
    by (simp add: Cons.hyps(2) [symmetric])
qed

lemma iteration_eq:
  assumes "receive_callback_m s" and "new_data_m s" and "\<not> callback_shutdown_m s"
  shows "process_callbacks_iteration s =
     Some (Inr (True, s\<lparr>local_queue := [], read_queue_m := [], new_data_m := False,
                         trace := trace s
                           @ [Lock callback_mutex, Wait callback_condition_variable,
                              SpliceRead, Store new_data_flag False, Unlock callback_mutex]
                           @ map (\<lambda>b. ReceiveCallback (received b))
                               (local_queue s @ read_queue_m s)\<rparr>))"
  using assms by (simp add: process_callbacks_iteration_def wake_eq drain_eq)

lemma read_done_eq:
  "async_read_end False n is_open s =
     s\<lparr>read_queue_m := read_queue_m s @ [ReadBuffer_new (read_buffer_m s) n],
       new_data_m := True,
       trace := trace s
         @ [Lock callback_mutex, EmplaceRead (ReadBuffer_new (read_buffer_m s) n),
            Store new_data_flag True, Unlock callback_mutex,
            Notify callback_condition_variable]
         @ (if is_open then [DoAsyncRead] else [])\<rparr>"
  by (simp add: async_read_end_def async_read_def stmt_defs Let_def)

lemma received_copy:
  "length r \<le> length buf \<Longrightarrow>
     received (ReadBuffer_new (r @ drop (length r) buf) (length r)) = r"
  by (simp add: received_def ReadBuffer_new_def)

lemma rd_step:
  assumes "rd_ok s" and "rd_enabled a s" and "rd_fire a s = Some s1"
  shows "rd_ok s1"
    and "callbacks (trace s1) @ undelivered s1 = callbacks (trace s) @ undelivered s @ arrived [a]"
proof -
  have "rd_ok s1 \<and>
    callbacks (trace s1) @ undelivered s1 = callbacks (trace s) @ undelivered s @ arrived [a]"
  proof (cases a)
    case (ReadDone r is_open)
    with assms(3) have s1: "s1 = async_read_end False (length r) is_open (transport_fill r s)"
      by simp
    from ReadDone assms(2) have "length r \<le> length (read_buffer_m s)" by simp
    then have "received (ReadBuffer_new (read_buffer_m (transport_fill r s)) (length r)) = r"
      by (simp add: transport_fill_def received_copy)
    then show ?thesis
      using assms(1) ReadDone unfolding s1 read_done_eq
      by (simp add: rd_ok_def undelivered_def transport_fill_def callbacks_append)
  next
    case Wake
    with assms(3) have "process_callbacks_wake s \<noteq> None"
      by (auto split: option.splits)
    with assms(1) have nd: "new_data_m s" "\<not> callback_shutdown_m s"
      by (auto simp: process_callbacks_wake_def wait_def lock_def emit_def rd_ok_def
          split: if_splits)
    from assms(3) Wake have s1: "s1 = s\<lparr>local_queue := local_queue s @ read_queue_m s,
        read_queue_m := [], new_data_m := False,
        trace := trace s @ [Lock callback_mutex, Wait callback_condition_variable,
                            SpliceRead, Store new_data_flag False,
                            Unlock callback_mutex]\<rparr>"
      by (simp add: wake_eq [OF nd])
    show ?thesis
      using assms(1) Wake unfolding s1
      by (simp add: rd_ok_def undelivered_def callbacks_append)
  next
    case Deliver
    with assms(2) obtain b q where q: "local_queue s = b # q"
      by (cases "local_queue s") auto
    from assms(1) have "receive_callback_m s" by (simp add: rd_ok_def)
    from deliver_eq [OF this q] assms(3) Deliver assms(1) show ?thesis
      by (auto simp: rd_ok_def undelivered_def callbacks_append q)
  qed
  then show "rd_ok s1"
    and "callbacks (trace s1) @ undelivered s1 = callbacks (trace s) @ undelivered s @ arrived [a]"
    by simp_all
qed

lemma rd_exec_inv:
  assumes "rd_ok s" and "rd_exec as s = Some s'"
  shows "rd_ok s' \<and>
    callbacks (trace s') @ undelivered s' = callbacks (trace s) @ undelivered s @ arrived as"
  using assms
proof (induction as arbitrary: s)
  case Nil
  then show ?case by simp
next
  case (Cons a as)
  from Cons.prems(2) obtain s1 where en: "rd_enabled a s" and f: "rd_fire a s = Some s1"
    and r: "rd_exec as s1 = Some s'"
    by (auto split: if_splits option.splits)
  note st = rd_step [OF Cons.prems(1) en f]
  from Cons.IH [OF st(1) r]
  have "rd_ok s'" and "callbacks (trace s') @ undelivered s' =
      callbacks (trace s1) @ undelivered s1 @ arrived as"
    by simp_all
  moreover have "arrived (a # as) = arrived [a] @ arrived as"
    by (cases a) simp_all
  ultimately show ?case
    using st(2) by (metis append.assoc)
qed


lemma rd_exec_append:
  "rd_exec (as @ bs) s =
     (case rd_exec as s of None \<Rightarrow> None | Some s1 \<Rightarrow> rd_exec bs s1)"
  by (induction as arbitrary: s) (auto split: option.splits)

lemma rd_exec_cons:
  "rd_exec (a # as) s =
     (case rd_exec [a] s of None \<Rightarrow> None | Some s1 \<Rightarrow> rd_exec as s1)"
  by (auto split: option.splits)

lemma deliver_all:
  assumes "receive_callback_m s"
  shows "rd_exec (replicate (length (local_queue s)) Deliver) s =
     Some (s\<lparr>local_queue := [],
             trace := trace s @ map (\<lambda>b. ReceiveCallback (received b)) (local_queue s)\<rparr>)"
  using assms
proof (induction "local_queue s" arbitrary: s)
  case Nil
  then show ?case by (simp add: Nil.hyps [symmetric])
next
  case (Cons b q)
  let ?s1 = "s\<lparr>local_queue := q, trace := trace s @ [ReceiveCallback (received b)]\<rparr>"
  have d: "process_callbacks_deliver s = Inr ?s1"
    using Cons.prems Cons.hyps(2) [symmetric] by (rule deliver_eq)
  have "rd_exec (replicate (length (local_queue ?s1)) Deliver) ?s1 =
     Some (?s1\<lparr>local_queue := [],
             trace := trace ?s1 @ map (\<lambda>b. ReceiveCallback (received b)) (local_queue ?s1)\<rparr>)"
    using Cons.prems by (intro Cons.hyps(1)) simp_all
  then show ?case
    by (simp add: Cons.hyps(2) [symmetric] d)
qed

lemma callback_drain_ok:
  assumes "rd_ok s"
  shows "\<exists>s'. rd_exec (callback_drain s) s = Some s'
     \<and> callbacks (trace s') = callbacks (trace s) @ undelivered s
     \<and> local_queue s' = [] \<and> read_queue_m s' = []"
proof -
  from assms have rc: "receive_callback_m s" and ns: "\<not> callback_shutdown_m s"
    by (simp_all add: rd_ok_def)
  let ?s1 = "s\<lparr>local_queue := [],
             trace := trace s @ map (\<lambda>b. ReceiveCallback (received b)) (local_queue s)\<rparr>"
  note 1 = deliver_all [OF rc]
  show ?thesis
  proof (cases "read_queue_m s = []")
    case True
    with 1 show ?thesis
      by (simp add: callback_drain_def undelivered_def callbacks_append callbacks_map)
  next
    case False
    with assms have nd: "new_data_m ?s1" "\<not> callback_shutdown_m ?s1"
      by (simp_all add: rd_ok_def)
    let ?s2 = "?s1\<lparr>local_queue := local_queue ?s1 @ read_queue_m ?s1, read_queue_m := [],
                    new_data_m := False,
                    trace := trace ?s1 @ [Lock callback_mutex, Wait callback_condition_variable,
                                        SpliceRead, Store new_data_flag False,
                                        Unlock callback_mutex]\<rparr>"
    have w: "rd_exec [Wake] ?s1 = Some ?s2"
      by (simp add: wake_eq [OF nd])
    have rc2: "receive_callback_m ?s2" using rc by simp
    have l2: "local_queue ?s2 = read_queue_m s" by simp
    note 3 = deliver_all [OF rc2, unfolded l2]
    have "rd_exec (callback_drain s) s =
        rd_exec (Wake # replicate (length (read_queue_m s)) Deliver) ?s1"
      using False 1 by (simp add: callback_drain_def rd_exec_append del: rd_exec.simps)
    also have "\<dots> = rd_exec (replicate (length (read_queue_m s)) Deliver) ?s2"
      by (subst rd_exec_cons) (simp add: w del: rd_exec.simps)
    finally have "rd_exec (callback_drain s) s =
        rd_exec (replicate (length (read_queue_m s)) Deliver) ?s2" .
    then show ?thesis
      unfolding 3
      by (simp add: undelivered_def callbacks_append callbacks_map)
  qed
qed

text \<open>
  Claim C4. Start with a callback registered, no shutdown requested and both queues
  empty, and take any sequence of successful read completions (each with its payload
  at the start of the scratch buffer), wake-ups of the callback thread and turns of its
  inner loop. Then the payloads the callback has been called with, followed by those
  of the chunks still queued, are the payloads of the completions in completion order:
  no chunk is delivered twice, out of order or changed. When the callback thread is
  back at its wait with \<open>new_data_\<close> clear, every chunk has been delivered, and the
  thread's own steps always get there. A wake-up with \<open>new_data_\<close> set moves the whole
  read queue to the end of the local queue, clears \<open>new_data_\<close> and releases
  \<open>callback_mutex_\<close>; one whole turn of the outer loop calls the callback once per chunk
  in order, after the lock has been released.
\<close>

theorem callback_once_per_chunk_in_order:
  assumes "receive_callback_m s0" and "\<not> callback_shutdown_m s0"
    and "read_queue_m s0 = []" and "local_queue s0 = []"
    and "rd_exec as s0 = Some s"
  shows "callbacks (trace s) @ map received (local_queue s @ read_queue_m s) =
           callbacks (trace s0) @ arrived as
    \<and> (local_queue s = [] \<and> \<not> new_data_m s \<longrightarrow>
         callbacks (trace s) = callbacks (trace s0) @ arrived as)
    \<and> (\<exists>s'. rd_exec (as @ callback_drain s) s0 = Some s'
           \<and> callbacks (trace s') = callbacks (trace s0) @ arrived as)
    \<and> (new_data_m t \<and> \<not> callback_shutdown_m t \<longrightarrow>
         process_callbacks_wake t =
           Some (True, t\<lparr>local_queue := local_queue t @ read_queue_m t, read_queue_m := [],
                    new_data_m := False,
                    trace := trace t @ [Lock callback_mutex, Wait callback_condition_variable,
                                        SpliceRead, Store new_data_flag False,
                                        Unlock callback_mutex]\<rparr>))
    \<and> (receive_callback_m t \<and> new_data_m t \<and> \<not> callback_shutdown_m t \<longrightarrow>
         process_callbacks_iteration t =
           Some (Inr (True, t\<lparr>local_queue := [], read_queue_m := [], new_data_m := False,
                         trace := trace t
                           @ [Lock callback_mutex, Wait callback_condition_variable,
                              SpliceRead, Store new_data_flag False, Unlock callback_mutex]
                           @ map (\<lambda>b. ReceiveCallback (received b))
                               (local_queue t @ read_queue_m t)\<rparr>)))"
proof -
  have ok0: "rd_ok s0"
    using assms(1-3) by (simp add: rd_ok_def)
  have u0: "undelivered s0 = []"
    using assms(3,4) by (simp add: undelivered_def)
  from rd_exec_inv [OF ok0 assms(5)] have ok: "rd_ok s"
    and 1: "callbacks (trace s) @ undelivered s = callbacks (trace s0) @ arrived as"
    unfolding u0 by simp_all
  have 2: "local_queue s = [] \<and> \<not> new_data_m s \<longrightarrow>
         callbacks (trace s) = callbacks (trace s0) @ arrived as"
    using ok 1 by (auto simp: rd_ok_def undelivered_def)
  from callback_drain_ok [OF ok] obtain s' where
    "rd_exec (callback_drain s) s = Some s'"
    "callbacks (trace s') = callbacks (trace s) @ undelivered s"
    by blast
  with 1 assms(5) have 3: "\<exists>s'. rd_exec (as @ callback_drain s) s0 = Some s'
           \<and> callbacks (trace s') = callbacks (trace s0) @ arrived as"
    by (simp add: rd_exec_append)
  from 1 2 3 show ?thesis
    by (simp add: undelivered_def wake_eq iteration_eq)
qed


theorem callback_once_per_chunk_in_order_witness:
  "\<exists>s. rd_exec [ReadDone [1, 2] True, ReadDone [3] True, Wake, ReadDone [4] False, Deliver,
                  Deliver, Wake, Deliver] (register_receive_callback (Comm_new [0, 0, 0])) = Some s
     \<and> local_queue s = [] \<and> \<not> new_data_m s
     \<and> callbacks (trace s) = [[1, 2], [3], [4]]"
proof -
  let ?as = "[ReadDone [1, 2] True, ReadDone [3] True, Wake, ReadDone [4] False, Deliver,
              Deliver, Wake, Deliver]"
  let ?s0 = "register_receive_callback (Comm_new [0, 0, 0])"
  have "\<exists>s. rd_exec ?as ?s0 = Some s \<and> local_queue s = [] \<and> \<not> new_data_m s"
    by (simp add: rd_simps)
  then obtain s where s: "rd_exec ?as ?s0 = Some s" and q: "local_queue s = []" "\<not> new_data_m s"
    by blast
  have 0: "receive_callback_m ?s0" "\<not> callback_shutdown_m ?s0" "read_queue_m ?s0 = []"
    "local_queue ?s0 = []" "callbacks (trace ?s0) = []"
    by (simp_all add: register_receive_callback_def Comm_new_def)
  from callback_once_per_chunk_in_order [OF 0(1-4) s] q 0(5)
  have "callbacks (trace s) = arrived ?as"
    by simp
  with s q show ?thesis
    by simp
qed

end
